theory Spec2Isabelle
  imports Main
begin

section \<open>Strings of the host language\<close>

text \<open>
  A source string is a sequence of UTF-16 code units.  The model reads a \<^typ>\<open>char\<close> as one
  code unit below 256, so it covers the strings whose code units all lie in that range; the
  code units above it (among them the white space \<open>U+1680\<close>, \<open>U+2000\<close> to \<open>U+200A\<close>,
  \<open>U+2028\<close>, \<open>U+2029\<close>, \<open>U+202F\<close>, \<open>U+205F\<close>, \<open>U+3000\<close>, \<open>U+FEFF\<close>) are outside it.
\<close>

type_synonym Note = string

text \<open>White space as \<open>String.prototype.trim\<close> and the regular expression class \<open>\s\<close> see it.\<close>

definition isSpace :: "char \<Rightarrow> bool" where
  "isSpace c = (c \<in> set [CHR 0x09, CHR 0x0A, CHR 0x0B, CHR 0x0C, CHR 0x0D, CHR '' '', CHR 0xA0])"

text \<open>The line terminators, which the regular expression atom \<open>.\<close> does not match.\<close>

definition isLineTerminator :: "char \<Rightarrow> bool" where
  "isLineTerminator c = (c = CHR 0x0A \<or> c = CHR 0x0D)"

definition trim :: "string \<Rightarrow> string" where
  "trim s = rev (dropWhile isSpace (rev (dropWhile isSpace s)))"

definition startsWith :: "string \<Rightarrow> string \<Rightarrow> bool" where
  "startsWith s p = (take (length p) s = p)"

text \<open>
  \<open>String.prototype.toLowerCase\<close> on one code unit: \<open>A\<close> to \<open>Z\<close> and the upper-case letters
  \<open>0xC0\<close> to \<open>0xDE\<close> (without the multiplication sign \<open>0xD7\<close>) move up by 32.
\<close>

definition toLowerCase_char :: "char \<Rightarrow> char" where
  "toLowerCase_char c =
     (let n = (of_char c :: nat)
      in if (65 \<le> n \<and> n \<le> 90) \<or> (192 \<le> n \<and> n \<le> 222 \<and> n \<noteq> 215)
         then char_of (n + 32) else c)"

definition toLowerCase :: "string \<Rightarrow> string" where
  "toLowerCase s = map toLowerCase_char s"

text \<open>
  The canonical form that a regular expression with the flag \<open>i\<close> (and without \<open>u\<close>) compares:
  the upper-case code unit.  The two letters of the range whose upper case lies above 255
  (\<open>0xB5\<close>, \<open>0xFF\<close>) and \<open>0xDF\<close>, whose upper case is two code units, stay as they are; no
  other code unit of the range has their canonical form.
\<close>

definition canonicalize :: "char \<Rightarrow> char" where
  "canonicalize c =
     (let n = (of_char c :: nat)
      in if (97 \<le> n \<and> n \<le> 122) \<or> (224 \<le> n \<and> n \<le> 254 \<and> n \<noteq> 247)
         then char_of (n - 32) else c)"

text \<open>\<open>code.split('\n')\<close>: the pieces between line feeds; the empty string gives one empty piece.\<close>

fun split_nl_from :: "string \<Rightarrow> string \<Rightarrow> string list" where
  "split_nl_from cur [] = [rev cur]"
| "split_nl_from cur (c # cs) =
     (if c = CHR 0x0A then rev cur # split_nl_from [] cs else split_nl_from (c # cur) cs)"

definition split_nl :: "string \<Rightarrow> string list" where
  "split_nl code = split_nl_from [] code"

text \<open>
  \<open>notesString.split(/\s+/)\<close>: the pieces between maximal runs of white space.  A run at the
  start or at the end leaves an empty piece there, and the empty string gives one empty piece.
\<close>

function split_ws :: "string \<Rightarrow> string list" where
  "split_ws s =
     (let piece = takeWhile (\<lambda>c. \<not> isSpace c) s; r = dropWhile (\<lambda>c. \<not> isSpace c) s
      in case r of [] \<Rightarrow> [piece] | _ # _ \<Rightarrow> piece # split_ws (dropWhile isSpace r))"
  by pat_completeness auto

lemma dropWhile_isSpace_shorter:
  assumes "x # xs = dropWhile (\<lambda>c. \<not> isSpace c) s"
  shows "length (dropWhile isSpace (dropWhile (\<lambda>c. \<not> isSpace c) s)) < length s"
proof -
  have sp: "isSpace x"
    using assms hd_dropWhile [of "\<lambda>c. \<not> isSpace c" s] by (metis list.sel(1) list.distinct(1))
  have "length (dropWhile isSpace xs) \<le> length xs"
    by (rule length_dropWhile_le)
  moreover have "length (x # xs) \<le> length s"
    using length_dropWhile_le [of "\<lambda>c. \<not> isSpace c" s] assms by simp
  ultimately have "length (dropWhile isSpace (x # xs)) < length s"
    using sp by simp
  then show ?thesis by (simp add: assms)
qed

termination split_ws
  by (relation "measure length") (simp_all add: dropWhile_isSpace_shorter)

declare split_ws.simps [simp del]

section \<open>The pattern parser\<close>

record ParsedPattern =
  drums :: "Note list option"
  bass :: "Note list option"
  synth :: "Note list option"

text \<open>The object literal \<open>{}\<close>: no track is present.\<close>

definition no_patterns :: ParsedPattern where
  "no_patterns = \<lparr>drums = None, bass = None, synth = None\<rparr>"

subsection \<open>The line expression \<open>/^(drums|bass|synth)\s*:\s*(.+)$/i\<close>\<close>

text \<open>
  Each piece of the expression is a matcher in continuation style: it consumes a prefix of
  the remaining input and hands the rest to the continuation; when the continuation fails
  it backtracks the way the expression does.
\<close>

text \<open>One alternative of the first group, compared without case; the group captures the input's own letters.\<close>

definition lit_ci :: "string \<Rightarrow> string \<Rightarrow> (string \<Rightarrow> string \<Rightarrow> 'a option) \<Rightarrow> 'a option" where
  "lit_ci w s k =
     (if length w \<le> length s \<and> map canonicalize (take (length w) s) = map canonicalize w
      then k (take (length w) s) (drop (length w) s) else None)"

definition or_else :: "'a option \<Rightarrow> 'a option \<Rightarrow> 'a option" where
  "or_else a b = (case a of Some r \<Rightarrow> Some r | None \<Rightarrow> b)"

text \<open>Greedy \<open>\s*\<close>: take one more white-space character first, give it back if the rest then fails.\<close>

fun ws_star :: "string \<Rightarrow> (string \<Rightarrow> 'a option) \<Rightarrow> 'a option" where
  "ws_star [] k = k []"
| "ws_star (c # cs) k =
     (if isSpace c then or_else (ws_star cs k) (k (c # cs)) else k (c # cs))"

definition colon :: "string \<Rightarrow> (string \<Rightarrow> 'a option) \<Rightarrow> 'a option" where
  "colon s k = (case s of [] \<Rightarrow> None | c # cs \<Rightarrow> if c = CHR '':'' then k cs else None)"

text \<open>
  \<open>(.+)$\<close> without the flag \<open>m\<close>: \<open>$\<close> holds at the end of the input only, so the group has to
  take everything that is left, which must be at least one character and free of line terminators.
\<close>

definition dot_plus_end :: "string \<Rightarrow> string option" where
  "dot_plus_end s = (if s \<noteq> [] \<and> list_all (\<lambda>c. \<not> isLineTerminator c) s then Some s else None)"

text \<open>\<open>line.match(...)\<close>: the two captured groups, or \<open>None\<close> for \<open>null\<close>.\<close>

definition line_match :: "string \<Rightarrow> (string \<times> string) option" where
  "line_match line =
     (let after_name = (\<lambda>m1 r1.
            ws_star r1 (\<lambda>r2. colon r2 (\<lambda>r3. ws_star r3 (\<lambda>r4.
              map_option (\<lambda>m2. (m1, m2)) (dot_plus_end r4)))))
      in or_else (lit_ci ''drums'' line after_name)
           (or_else (lit_ci ''bass'' line after_name) (lit_ci ''synth'' line after_name)))"

subsection \<open>\<open>PatternParser.parse\<close>\<close>

text \<open>The body of the loop over the lines, on the pattern object built so far.\<close>

definition parse_line :: "ParsedPattern \<Rightarrow> string \<Rightarrow> ParsedPattern" where
  "parse_line patterns line =
     (if startsWith (trim line) ''//'' then patterns
      else case line_match line of
          None \<Rightarrow> patterns
        | Some (m1, m2) \<Rightarrow>
            (let instrument = toLowerCase m1;
                 notesString = trim m2;
                 notes = filter (\<lambda>n. length n > 0) (split_ws notesString)
             in if instrument = ''drums'' then patterns\<lparr>drums := Some notes\<rparr>
                else if instrument = ''bass'' then patterns\<lparr>bass := Some notes\<rparr>
                else if instrument = ''synth'' then patterns\<lparr>synth := Some notes\<rparr>
                else patterns))"

definition parse :: "string \<Rightarrow> ParsedPattern" where
  "parse code =
     (let lines = filter (\<lambda>line. length (trim line) > 0) (split_nl code)
      in foldl parse_line no_patterns lines)"

subsection \<open>\<open>PatternParser.isValidNote\<close>\<close>

definition validDrums :: "string list" where
  "validDrums = [''kick'', ''snare'', ''hihat'', ''clap'']"

definition letter_A_to_G :: "char \<Rightarrow> bool" where
  "letter_A_to_G c = (c \<in> set ''ABCDEFG'' \<or> c \<in> set ''abcdefg'')"

definition digit_0_to_8 :: "char \<Rightarrow> bool" where
  "digit_0_to_8 c = (c \<in> set ''012345678'')"

text \<open>
  \<open>/^[A-Ga-g][#b]?[0-8]$/.test(note)\<close>: the whole string is a letter, then at most one of
  \<open>#\<close> and \<open>b\<close>, then a digit.  No character is both a modifier and a digit, so the optional
  modifier is present exactly when the string has three characters.
\<close>

definition notePattern_test :: "string \<Rightarrow> bool" where
  "notePattern_test s =
     (case s of
        [l, d] \<Rightarrow> letter_A_to_G l \<and> digit_0_to_8 d
      | [l, m, d] \<Rightarrow> letter_A_to_G l \<and> (m = CHR ''#'' \<or> m = CHR ''b'') \<and> digit_0_to_8 d
      | _ \<Rightarrow> False)"

definition isValidNote :: "string \<Rightarrow> string \<Rightarrow> bool" where
  "isValidNote note instrument =
     (if note = ''-'' then True
      else if instrument = ''drums'' then toLowerCase note \<in> set validDrums
      else notePattern_test note)"

subsection \<open>\<open>PatternParser.getMaxPatternLength\<close>\<close>

definition getMaxPatternLength :: "ParsedPattern \<Rightarrow> nat" where
  "getMaxPatternLength patterns =
     (let maxLength = 0;
          maxLength = (case drums patterns of Some d \<Rightarrow> max maxLength (length d) | None \<Rightarrow> maxLength);
          maxLength = (case bass patterns of Some b \<Rightarrow> max maxLength (length b) | None \<Rightarrow> maxLength);
          maxLength = (case synth patterns of Some y \<Rightarrow> max maxLength (length y) | None \<Rightarrow> maxLength)
      in maxLength)"

section \<open>The audio engine\<close>

text \<open>The three synthesiser classes a drum of the engine can be an instance of.\<close>

datatype DrumSynth = MembraneSynth | MetalSynth | NoiseSynth

text \<open>The map \<open>this.drums\<close> as the constructor leaves it; nothing changes it afterwards.\<close>

definition engine_drums :: "string \<Rightarrow> DrumSynth option" where
  "engine_drums =
     [''kick'' \<mapsto> MembraneSynth, ''snare'' \<mapsto> NoiseSynth,
      ''hihat'' \<mapsto> MetalSynth, ''clap'' \<mapsto> NoiseSynth]"

text \<open>
  A call of \<open>triggerAttackRelease\<close> on one of the engine's instruments: a drum of the map
  (named by its key) with a note and a duration or with a duration only, the bass
  synthesiser, the lead synthesiser.  The time is passed through as it comes.
\<close>

datatype 't Trigger =
    DrumNoteTrigger string string string 't
  | DrumHitTrigger string string 't
  | BassTrigger Note string 't
  | LeadTrigger Note string 't

definition playDrum :: "string \<Rightarrow> 't \<Rightarrow> 't Trigger list" where
  "playDrum drumType time =
     (let key = toLowerCase drumType
      in case engine_drums key of
           None \<Rightarrow> []
         | Some drum \<Rightarrow>
             (if drum = MembraneSynth then [DrumNoteTrigger key ''C2'' ''8n'' time]
              else if drum = NoiseSynth \<or> drum = MetalSynth then [DrumHitTrigger key ''8n'' time]
              else []))"

text \<open>
  The bass and the lead synthesiser get the token of the pattern as their note.  What the
  library does with a note is not part of the repository: it plays some and throws on
  others, and nothing in the engine or the sequencer catches what it throws.  The parameter
  \<open>accepts\<close> tells which notes the library takes; a method that hands it any other note ends
  with the exception.
\<close>

datatype Thrown = RejectedNote Note

definition playBass :: "(Note \<Rightarrow> bool) \<Rightarrow> Note \<Rightarrow> string \<Rightarrow> 't \<Rightarrow> Thrown + 't Trigger list" where
  "playBass accepts note duration time =
     (if note \<noteq> ''-''
      then (if accepts note then Inr [BassTrigger note duration time] else Inl (RejectedNote note))
      else Inr [])"

definition playSynth :: "(Note \<Rightarrow> bool) \<Rightarrow> Note \<Rightarrow> string \<Rightarrow> 't \<Rightarrow> Thrown + 't Trigger list" where
  "playSynth accepts note duration time =
     (if note \<noteq> ''-''
      then (if accepts note then Inr [LeadTrigger note duration time] else Inl (RejectedNote note))
      else Inr [])"

section \<open>The sequencer\<close>

subsection \<open>\<open>Sequencer.playStep\<close>\<close>

text \<open>A call of one of the audio engine's three play methods, with its arguments.\<close>

datatype 't EngineCall =
    PlayDrum Note 't
  | PlayBass Note string 't
  | PlaySynth Note string 't

text \<open>What the engine does with one call: the triggers it sets off, or the exception.\<close>

fun perform :: "(Note \<Rightarrow> bool) \<Rightarrow> 't EngineCall \<Rightarrow> Thrown + 't Trigger list" where
  "perform accepts (PlayDrum note time) = Inr (playDrum note time)"
| "perform accepts (PlayBass note duration time) = playBass accepts note duration time"
| "perform accepts (PlaySynth note duration time) = playSynth accepts note duration time"

text \<open>
  A piece of the dispatch: the engine calls it makes, in order, and the exception that ended
  it, if any.  \<open>invoke\<close> is one call; \<open>and_then\<close> is one statement after another, where
  nothing runs after an exception.
\<close>

type_synonym 't Dispatch = "'t EngineCall list \<times> Thrown option"

definition invoke :: "(Note \<Rightarrow> bool) \<Rightarrow> 't EngineCall \<Rightarrow> 't Dispatch" where
  "invoke accepts c = ([c], case perform accepts c of Inl e \<Rightarrow> Some e | Inr trs \<Rightarrow> None)"

definition and_then :: "'t Dispatch \<Rightarrow> 't Dispatch \<Rightarrow> 't Dispatch" where
  "and_then a b = (case snd a of Some e \<Rightarrow> a | None \<Rightarrow> (fst a @ fst b, snd b))"

text \<open>
  The step is an index the sequence hands to its callback, one of \<open>0\<close> to \<open>maxSteps - 1\<close>,
  hence a natural number.
\<close>

definition playStep :: "(Note \<Rightarrow> bool) \<Rightarrow> ParsedPattern \<Rightarrow> nat \<Rightarrow> 't \<Rightarrow> 't Dispatch" where
  "playStep accepts patterns step time =
     and_then
       (case drums patterns of
          Some d \<Rightarrow> if step < length d
                    then (let note = d ! step
                          in if note \<noteq> ''-'' then invoke accepts (PlayDrum note time) else ([], None))
                    else ([], None)
        | None \<Rightarrow> ([], None))
     (and_then
       (case bass patterns of
          Some b \<Rightarrow> if step < length b
                    then (let note = b ! step
                          in if note \<noteq> ''-'' then invoke accepts (PlayBass note ''8n'' time) else ([], None))
                    else ([], None)
        | None \<Rightarrow> ([], None))
       (case synth patterns of
          Some y \<Rightarrow> if step < length y
                    then (let note = y ! step
                          in if note \<noteq> ''-'' then invoke accepts (PlaySynth note ''8n'' time) else ([], None))
                    else ([], None)
        | None \<Rightarrow> ([], None)))"

subsection \<open>The transport and the sequencer's state\<close>

datatype TransportState = started | stopped | paused

text \<open>
  Modelled from the spec: the transport of the audio library (\<open>Tone.Transport\<close>), whose code
  is not part of the repository.  Section 4.2 gives its state machine: start leads to running
  (the sequencer's \<open>start\<close> and \<open>resume\<close> both call it), pause leads from running to paused and
  is without effect elsewhere, stop leads to stopped from every state.
\<close>

definition transport_start :: "TransportState \<Rightarrow> TransportState" where
  "transport_start st = started"

definition transport_pause :: "TransportState \<Rightarrow> TransportState" where
  "transport_pause st = (if st = started then paused else st)"

definition transport_stop :: "TransportState \<Rightarrow> TransportState" where
  "transport_stop st = stopped"

text \<open>The calls the sequencer makes into the audio library and the console.\<close>

datatype LibraryCall =
    ToneStart
  | ConsoleWarn string
  | SequenceNew "nat list" string
  | SequenceStart
  | SequenceStop
  | SequenceDispose "nat list"
  | TransportStart
  | TransportPause
  | TransportStop

text \<open>
  The fields of the class, then the part of the library the class reads and writes: the
  state of the transport, the calls made so far, oldest first, and the number of calls of
  \<open>start\<close> that wait at their \<open>await\<close>.  The field \<open>sequence\<close> holds the events of the sequence
  object, \<open>None\<close> for \<open>null\<close>; \<open>onStepCallback\<close> tells whether a callback is registered.
\<close>

record Sequencer =
  patterns :: ParsedPattern
  currentStep :: nat
  maxSteps :: nat
  sequence :: "nat list option"
  onStepCallback :: bool
  transport_state :: TransportState
  calls :: "LibraryCall list"
  pending_starts :: nat

definition call :: "LibraryCall \<Rightarrow> Sequencer \<Rightarrow> Sequencer" where
  "call c s = s\<lparr>calls := calls s @ [c]\<rparr>"

text \<open>The constructor, in a world whose transport has not been started.\<close>

definition new_Sequencer :: Sequencer where
  "new_Sequencer =
     \<lparr>patterns = no_patterns, currentStep = 0, maxSteps = 0, sequence = None,
      onStepCallback = False, transport_state = stopped, calls = [], pending_starts = 0\<rparr>"

definition isPlaying :: "Sequencer \<Rightarrow> bool" where
  "isPlaying s = (transport_state s = started)"

text \<open>
  \<open>start\<close> is asynchronous.  A call runs up to \<open>await Tone.start()\<close> and returns to its caller
  (\<open>start_called\<close>); the rest of the body (\<open>start_body\<close>) runs later, when the activation of the
  audio context has come and no other code is running (\<open>start_resumed\<close>).  In between every
  other method can run.
\<close>

definition start_called :: "Sequencer \<Rightarrow> Sequencer" where
  "start_called s = (call ToneStart s)\<lparr>pending_starts := Suc (pending_starts s)\<rparr>"

definition start_body :: "Sequencer \<Rightarrow> Sequencer" where
  "start_body s0 =
     (if maxSteps s0 = 0 then call (ConsoleWarn ''No patterns to play'') s0
      else
        (let s = (case sequence s0 of Some ev \<Rightarrow> call (SequenceDispose ev) s0 | None \<Rightarrow> s0);
             s = s\<lparr>currentStep := 0\<rparr>;
             ev = [0..<maxSteps s];
             s = (call (SequenceNew ev ''8n'') s)\<lparr>sequence := Some ev\<rparr>;
             s = call SequenceStart s
         in (call TransportStart s)\<lparr>transport_state := transport_start (transport_state s)\<rparr>))"

definition start_resumed :: "Sequencer \<Rightarrow> Sequencer" where
  "start_resumed s = start_body (s\<lparr>pending_starts := pending_starts s - 1\<rparr>)"

text \<open>
  A call of \<open>start\<close> that its caller awaits, as the play button does, with the activation
  granted at once: the call and the rest of the body in one step.
\<close>

definition start :: "Sequencer \<Rightarrow> Sequencer" where
  "start s = start_body (call ToneStart s)"

definition pause :: "Sequencer \<Rightarrow> Sequencer" where
  "pause s = (call TransportPause s)\<lparr>transport_state := transport_pause (transport_state s)\<rparr>"

definition resume :: "Sequencer \<Rightarrow> Sequencer" where
  "resume s = (call TransportStart s)\<lparr>transport_state := transport_start (transport_state s)\<rparr>"

definition stop :: "Sequencer \<Rightarrow> Sequencer" where
  "stop s0 =
     (let s = (call TransportStop s0)\<lparr>transport_state := transport_stop (transport_state s0)\<rparr>;
          s = (case sequence s of
                 Some ev \<Rightarrow> (call (SequenceDispose ev) (call SequenceStop s))\<lparr>sequence := None\<rparr>
               | None \<Rightarrow> s)
      in s\<lparr>currentStep := 0\<rparr>)"

text \<open>
  \<open>updatePatterns\<close> does not await the \<open>start\<close> it calls: it returns with that call waiting.
\<close>

definition updatePatterns :: "string \<Rightarrow> Sequencer \<Rightarrow> Sequencer" where
  "updatePatterns code s0 =
     (let s = s0\<lparr>patterns := parse code\<rparr>;
          s = s\<lparr>maxSteps := getMaxPatternLength (patterns s)\<rparr>
      in if isPlaying s then start_called (stop s) else s)"

definition onStep :: "Sequencer \<Rightarrow> Sequencer" where
  "onStep s = s\<lparr>onStepCallback := True\<rparr>"

text \<open>
  The callback the sequence runs at a tick: the dispatch of the step, read from the field
  \<open>patterns\<close> as it is at that moment, then the step recorded.  An exception of the dispatch
  ends the callback before the step is recorded.
\<close>

definition sequence_callback ::
  "(Note \<Rightarrow> bool) \<Rightarrow> 't \<Rightarrow> nat \<Rightarrow> Sequencer \<Rightarrow> 't Dispatch \<times> Sequencer" where
  "sequence_callback accepts time step s =
     (let d = playStep accepts (patterns s) step time
      in case snd d of Some e \<Rightarrow> (d, s) | None \<Rightarrow> (d, s\<lparr>currentStep := step\<rparr>))"

section \<open>Notions the properties are stated with\<close>

text \<open>The three tracks, the pattern a pattern set holds for a track, and storing one.\<close>

datatype Track = Drums | Bass | Synth

fun track_name :: "Track \<Rightarrow> string" where
  "track_name Drums = ''drums''"
| "track_name Bass = ''bass''"
| "track_name Synth = ''synth''"

fun pattern_of :: "Track \<Rightarrow> ParsedPattern \<Rightarrow> Note list option" where
  "pattern_of Drums P = drums P"
| "pattern_of Bass P = bass P"
| "pattern_of Synth P = synth P"

fun store :: "Track \<Rightarrow> Note list \<Rightarrow> ParsedPattern \<Rightarrow> ParsedPattern" where
  "store Drums ns P = P\<lparr>drums := Some ns\<rparr>"
| "store Bass ns P = P\<lparr>bass := Some ns\<rparr>"
| "store Synth ns P = P\<lparr>synth := Some ns\<rparr>"

text \<open>The patterns present in a pattern set.\<close>

definition present_patterns :: "ParsedPattern \<Rightarrow> Note list list" where
  "present_patterns P = List.map_filter (\<lambda>T. pattern_of T P) [Drums, Bass, Synth]"

text \<open>The track an engine call plays on, the calls of a list that play on a track, and the call that plays a token on a track.\<close>

fun call_track :: "'t EngineCall \<Rightarrow> Track" where
  "call_track (PlayDrum note time) = Drums"
| "call_track (PlayBass note duration time) = Bass"
| "call_track (PlaySynth note duration time) = Synth"







text \<open>
  How the specification reads a line.  A blank line has white space only; a comment line has
  \<open>//\<close> as its first characters that are not white space.  The track name of a line is the
  text before its first colon, without the white space in front of the colon; the rest of
  the line is the text after that colon, and its tokens are the maximal runs of characters
  that are not white space, read off from left to right (\<open>tokens_from\<close> holds the run it
  is in, reversed).
\<close>

definition blank_line :: "string \<Rightarrow> bool" where
  "blank_line l = list_all isSpace l"

definition comment_line :: "string \<Rightarrow> bool" where
  "comment_line l = startsWith (dropWhile isSpace l) ''//''"

definition track_name_of :: "string \<Rightarrow> string" where
  "track_name_of l = rev (dropWhile isSpace (rev (takeWhile (\<lambda>c. c \<noteq> CHR '':'') l)))"

definition track_named :: "string \<Rightarrow> Track option" where
  "track_named n =
     (if n = ''drums'' then Some Drums else if n = ''bass'' then Some Bass
      else if n = ''synth'' then Some Synth else None)"

definition line_track :: "string \<Rightarrow> Track option" where
  "line_track l = track_named (toLowerCase (track_name_of l))"

definition line_rest :: "string \<Rightarrow> string" where
  "line_rest l = drop 1 (dropWhile (\<lambda>c. c \<noteq> CHR '':'') l)"

fun tokens_from :: "string \<Rightarrow> string \<Rightarrow> Note list" where
  "tokens_from cur [] = (if cur = [] then [] else [rev cur])"
| "tokens_from cur (c # cs) =
     (if isSpace c then (if cur = [] then tokens_from [] cs else rev cur # tokens_from [] cs)
      else tokens_from (c # cur) cs)"

definition tokens :: "string \<Rightarrow> Note list" where
  "tokens r = tokens_from [] r"

text \<open>
  The lines of a text, read from its end: a line feed opens a new line in front, any other
  character joins the line in front.
\<close>

fun text_lines :: "string \<Rightarrow> string list" where
  "text_lines [] = [[]]"
| "text_lines (c # cs) =
     (if c = CHR 0x0A then [] # text_lines cs
      else (case text_lines cs of [] \<Rightarrow> [[c]] | l # ls \<Rightarrow> (c # l) # ls))"

text \<open>
  The shape \<open><track>: <tokens>\<close> of a line, without regard to the track: there is a colon, and
  the rest of the line is not empty, does not end in a line terminator, and has white space
  only up to its last line terminator.
\<close>

definition rest_matches :: "string \<Rightarrow> bool" where
  "rest_matches r =
     (r \<noteq> [] \<and> \<not> isLineTerminator (last r)
      \<and> list_all isSpace (rev (dropWhile (\<lambda>c. \<not> isLineTerminator c) (rev r))))"

definition has_shape :: "string \<Rightarrow> bool" where
  "has_shape l = (CHR '':'' \<in> set l \<and> rest_matches (line_rest l))"

text \<open>
  The lines the compiler skips: blank lines, comment lines, lines that do not have the
  shape, lines whose track name is none of the three.
\<close>

definition skipped :: "string \<Rightarrow> bool" where
  "skipped l = (blank_line l \<or> comment_line l \<or> \<not> has_shape l \<or> line_track l = None)"

text \<open>
  The compiler as the specification describes it: walk over the lines, skip those to be
  skipped, and store the tokens of every other line as the pattern of its track.
\<close>

definition compile_line :: "ParsedPattern \<Rightarrow> string \<Rightarrow> ParsedPattern" where
  "compile_line P l =
     (if skipped l then P
      else case line_track l of None \<Rightarrow> P | Some T \<Rightarrow> store T (tokens (line_rest l)) P)"

definition compile :: "string \<Rightarrow> ParsedPattern" where
  "compile code = foldl compile_line no_patterns (text_lines code)"

text \<open>
  A text of seven lines: a comment, an empty line, an unknown track, a percussion line, a
  line without colon, a lead line, and a percussion line that ends in a carriage return.
\<close>

definition song_text :: string where
  "song_text =
     ''// song'' @ [CHR 0x0A] @ [CHR 0x0A] @ ''piano: C4 C4'' @ [CHR 0x0A]
     @ ''Drums : kick  snare'' @ [CHR 0x0A] @ ''bass C2'' @ [CHR 0x0A] @ ''synth: C4 E4''
     @ [CHR 0x0A] @ ''drums: hihat'' @ [CHR 0x0D]"

text \<open>The lower-case letters \<open>a\<close> to \<open>z\<close>, of which the track names are made.\<close>

definition lower_letter :: "char \<Rightarrow> bool" where
  "lower_letter x = (97 \<le> (of_char x :: nat) \<and> (of_char x :: nat) \<le> 122)"

text \<open>
  The grammar of tokens as the specification words it: for the percussion track one of the
  four drum names as written, for a melodic track a letter \<open>A\<close> to \<open>G\<close>, then at most one of
  \<open>#\<close> and \<open>b\<close>, then a digit \<open>0\<close> to \<open>8\<close>.
\<close>

definition claimed_valid_token :: "Track \<Rightarrow> string \<Rightarrow> bool" where
  "claimed_valid_token T tok =
     (case T of
        Drums \<Rightarrow> tok \<in> set [''kick'', ''snare'', ''hihat'', ''clap'']
      | _ \<Rightarrow> (case tok of
                [l, d] \<Rightarrow> l \<in> set ''ABCDEFG'' \<and> d \<in> set ''012345678''
              | [l, m, d] \<Rightarrow> l \<in> set ''ABCDEFG'' \<and> m \<in> set ''#b'' \<and> d \<in> set ''012345678''
              | _ \<Rightarrow> False))"

text \<open>A sequencer that is playing: constructed, given two drum steps, started.\<close>

definition running_sequencer :: Sequencer where
  "running_sequencer = start (updatePatterns ''drums: kick snare'' new_Sequencer)"

text \<open>
  The field \<open>maxSteps\<close> is the cycle length of the field \<open>patterns\<close>: \<open>updatePatterns\<close> is the
  only method that writes either, and it writes both.
\<close>

definition consistent :: "Sequencer \<Rightarrow> bool" where
  "consistent s = (maxSteps s = getMaxPatternLength (patterns s))"

section \<open>The sequencer keeps its cycle length up to date\<close>

lemma consistent_new_Sequencer: "consistent new_Sequencer"
  by (simp add: consistent_def new_Sequencer_def no_patterns_def getMaxPatternLength_def)

lemma patterns_start_body [simp]: "patterns (start_body s) = patterns s"
  by (simp add: start_body_def call_def Let_def split: option.splits)

lemma maxSteps_start_body [simp]: "maxSteps (start_body s) = maxSteps s"
  by (simp add: start_body_def call_def Let_def split: option.splits)

lemma patterns_start [simp]: "patterns (start s) = patterns s"
  by (simp add: start_def call_def)

lemma maxSteps_start [simp]: "maxSteps (start s) = maxSteps s"
  by (simp add: start_def call_def)

lemma patterns_start_called [simp]: "patterns (start_called s) = patterns s"
  by (simp add: start_called_def call_def)

lemma maxSteps_start_called [simp]: "maxSteps (start_called s) = maxSteps s"
  by (simp add: start_called_def call_def)

lemma patterns_start_resumed [simp]: "patterns (start_resumed s) = patterns s"
  by (simp add: start_resumed_def)

lemma maxSteps_start_resumed [simp]: "maxSteps (start_resumed s) = maxSteps s"
  by (simp add: start_resumed_def)

lemma patterns_stop [simp]: "patterns (stop s) = patterns s"
  by (simp add: stop_def call_def Let_def split: option.splits)

lemma maxSteps_stop [simp]: "maxSteps (stop s) = maxSteps s"
  by (simp add: stop_def call_def Let_def split: option.splits)

lemma consistent_updatePatterns: "consistent (updatePatterns code s)"
  by (simp add: consistent_def updatePatterns_def Let_def)

lemma consistent_start: "consistent s \<Longrightarrow> consistent (start s)"
  by (simp add: consistent_def)

lemma consistent_start_called: "consistent s \<Longrightarrow> consistent (start_called s)"
  by (simp add: consistent_def)

lemma consistent_start_resumed: "consistent s \<Longrightarrow> consistent (start_resumed s)"
  by (simp add: consistent_def)

text \<open>A call of \<open>start\<close> whose rest runs before anything else is the awaited \<open>start\<close>.\<close>

lemma start_resumed_start_called: "start_resumed (start_called s) = start s"
  by (simp add: start_resumed_def start_called_def start_def call_def)

lemma consistent_stop: "consistent s \<Longrightarrow> consistent (stop s)"
  by (simp add: consistent_def)

lemma consistent_pause: "consistent s \<Longrightarrow> consistent (pause s)"
  by (simp add: consistent_def pause_def call_def)

lemma consistent_resume: "consistent s \<Longrightarrow> consistent (resume s)"
  by (simp add: consistent_def resume_def call_def)

lemma consistent_sequence_callback:
  "consistent s \<Longrightarrow> consistent (snd (sequence_callback accepts time step s))"
  by (simp add: consistent_def sequence_callback_def Let_def split: option.splits)

section \<open>Dispatching a step\<close>

lemma perform_drum_returns: "perform accepts (PlayDrum note time) \<noteq> Inl e"
  by simp




text \<open>
  The rests are filtered before the engine is called, so a call on a melodic track that
  does not throw sets off one trigger of its synthesiser.
\<close>

lemma melodic_calls_trigger_once:
  assumes "c \<in> set (fst (playStep accepts P s t))" and "call_track c \<noteq> Drums"
    and "perform accepts c = Inr trs"
  shows "\<exists>tr. trs = [tr]"
  using assms
  by (auto simp add: playStep_def and_then_def invoke_def Let_def playBass_def playSynth_def
      split: option.splits if_splits)

section \<open>The cycle length\<close>

lemma parse_bass_synth:
  "parse (''bass: C2 - E2 -'' @ [CHR 0x0A] @ ''synth: C4 E4'')
     = \<lparr>drums = None, bass = Some [''C2'', ''-'', ''E2'', ''-''], synth = Some [''C4'', ''E4'']\<rparr>"
  by code_simp

text \<open>
  C5.  The cycle length of a pattern set is the greatest length of a pattern present in it,
  and 0 when none is present.  Compiling the two lines \<open>bass: C2 - E2 -\<close> and
  \<open>synth: C4 E4\<close> gives the bass a pattern of length 4 and the lead one of length 2, no
  percussion, and the cycle length 4.
\<close>

theorem getMaxPatternLength_is_max:
  "getMaxPatternLength P =
     (if present_patterns P = [] then 0 else Max (set (map length (present_patterns P))))
   \<and> parse (''bass: C2 - E2 -'' @ [CHR 0x0A] @ ''synth: C4 E4'')
       = \<lparr>drums = None, bass = Some [''C2'', ''-'', ''E2'', ''-''], synth = Some [''C4'', ''E4'']\<rparr>
   \<and> getMaxPatternLength (parse (''bass: C2 - E2 -'' @ [CHR 0x0A] @ ''synth: C4 E4'')) = 4"
proof (intro conjI)
  show "getMaxPatternLength P =
     (if present_patterns P = [] then 0 else Max (set (map length (present_patterns P))))"
    by (cases "drums P"; cases "bass P"; cases "synth P")
       (simp_all add: getMaxPatternLength_def present_patterns_def max.commute max.left_commute)
  show "parse (''bass: C2 - E2 -'' @ [CHR 0x0A] @ ''synth: C4 E4'')
       = \<lparr>drums = None, bass = Some [''C2'', ''-'', ''E2'', ''-''], synth = Some [''C4'', ''E4'']\<rparr>"
    by (rule parse_bass_synth)
  show "getMaxPatternLength (parse (''bass: C2 - E2 -'' @ [CHR 0x0A] @ ''synth: C4 E4'')) = 4"
    unfolding parse_bass_synth by (simp add: getMaxPatternLength_def)
qed

theorem getMaxPatternLength_is_max_witness:
  "getMaxPatternLength \<lparr>drums = Some [''kick''], bass = None, synth = Some [''C4'', ''-'', ''E4'']\<rparr> = 3
   \<and> getMaxPatternLength no_patterns = 0"
  using getMaxPatternLength_is_max
      [of "\<lparr>drums = Some [''kick''], bass = None, synth = Some [''C4'', ''-'', ''E4'']\<rparr>"]
    getMaxPatternLength_is_max [of no_patterns]
  by (simp add: present_patterns_def no_patterns_def)

section \<open>Stopping, pausing and resuming\<close>

text \<open>
  C7.  From every state, \<open>stop\<close> sets the step index to 0 and leaves the sequencer without a
  sequence; a sequence it held has been stopped and disposed.  \<open>pause\<close> and \<open>resume\<close> leave
  the step index as it is.
\<close>

theorem stop_resets_pause_resume_keep:
  "currentStep (stop s) = 0
   \<and> sequence (stop s) = None
   \<and> calls (stop s) = calls s @ TransportStop #
        (case sequence s of Some ev \<Rightarrow> [SequenceStop, SequenceDispose ev] | None \<Rightarrow> [])
   \<and> currentStep (pause s) = currentStep s
   \<and> currentStep (resume s) = currentStep s"
  by (simp add: stop_def pause_def resume_def call_def Let_def split: option.splits)

theorem stop_resets_pause_resume_keep_witness:
  "currentStep (stop \<lparr>patterns = no_patterns, currentStep = 5, maxSteps = 0, sequence = Some [0, 1],
        onStepCallback = False, transport_state = paused, calls = [], pending_starts = 0\<rparr>) = 0
   \<and> calls (stop \<lparr>patterns = no_patterns, currentStep = 5, maxSteps = 0, sequence = Some [0, 1],
        onStepCallback = False, transport_state = paused, calls = [], pending_starts = 0\<rparr>)
       = [TransportStop, SequenceStop, SequenceDispose [0, 1]]
   \<and> currentStep (pause \<lparr>patterns = no_patterns, currentStep = 5, maxSteps = 0, sequence = Some [0, 1],
        onStepCallback = False, transport_state = paused, calls = [], pending_starts = 0\<rparr>) = 5"
  using stop_resets_pause_resume_keep
      [of "\<lparr>patterns = no_patterns, currentStep = 5, maxSteps = 0, sequence = Some [0, 1],
        onStepCallback = False, transport_state = paused, calls = [], pending_starts = 0\<rparr>"]
  by simp

section \<open>Starting with nothing to play\<close>

text \<open>
  C8.  When the cycle length of the active pattern set is 0, \<open>start\<close> only asks for the audio
  context and warns: the sequence, the step index and the state of the transport are as
  before, so a stopped transport stays stopped.  Such is the first start after any text that
  compiles to cycle length 0: no sequence, transport stopped.
\<close>

theorem start_without_patterns_is_noop:
  "(consistent s \<and> getMaxPatternLength (patterns s) = 0 \<longrightarrow>
      start s = s\<lparr>calls := calls s @ [ToneStart, ConsoleWarn ''No patterns to play'']\<rparr>
      \<and> sequence (start s) = sequence s
      \<and> transport_state (start s) = transport_state s)
   \<and> (getMaxPatternLength (parse code) = 0 \<longrightarrow>
      sequence (start (updatePatterns code new_Sequencer)) = None
      \<and> transport_state (start (updatePatterns code new_Sequencer)) = stopped)"
  by (simp add: consistent_def start_def start_body_def call_def Let_def updatePatterns_def
      isPlaying_def new_Sequencer_def)

theorem start_without_patterns_is_noop_witness:
  "start new_Sequencer = new_Sequencer\<lparr>calls := [ToneStart, ConsoleWarn ''No patterns to play'']\<rparr>
   \<and> sequence (start (updatePatterns ''piano: C4 C4'' new_Sequencer)) = None
   \<and> transport_state (start (updatePatterns ''piano: C4 C4'' new_Sequencer)) = stopped"
proof -
  have c: "consistent new_Sequencer \<and> getMaxPatternLength (patterns new_Sequencer) = 0"
    by (simp add: consistent_new_Sequencer)
       (simp add: new_Sequencer_def no_patterns_def getMaxPatternLength_def)
  have p: "parse ''piano: C4 C4'' = no_patterns"
    by code_simp
  have e: "getMaxPatternLength (parse ''piano: C4 C4'') = 0"
    unfolding p by (simp add: no_patterns_def getMaxPatternLength_def)
  from c e start_without_patterns_is_noop [of new_Sequencer "''piano: C4 C4''"]
  show ?thesis by (simp add: new_Sequencer_def)
qed

section \<open>Playing a drum\<close>

text \<open>
  C10.  For every string and time, \<open>playDrum\<close> triggers a drum exactly when the lower-case
  form of the string is one of \<open>kick\<close>, \<open>snare\<close>, \<open>hihat\<close>, \<open>clap\<close> (the drum of that name,
  once); for every other string it makes no call.  The name is looked up without case:
  \<open>KICK\<close> plays the kick.
\<close>

theorem playDrum_plays_iff_known:
  "playDrum d t =
     (if toLowerCase d \<in> {''kick'', ''snare'', ''hihat'', ''clap''}
      then (if toLowerCase d = ''kick'' then [DrumNoteTrigger ''kick'' ''C2'' ''8n'' t]
            else [DrumHitTrigger (toLowerCase d) ''8n'' t])
      else [])
   \<and> playDrum ''KICK'' t = [DrumNoteTrigger ''kick'' ''C2'' ''8n'' t]"
  by (simp add: playDrum_def engine_drums_def Let_def)
     (simp add: toLowerCase_def toLowerCase_char_def char_of_eq_iff)

theorem playDrum_plays_iff_known_witness:
  "playDrum ''Snare'' (0::nat) = [DrumHitTrigger ''snare'' ''8n'' 0]
   \<and> playDrum ''tom'' (0::nat) = []"
  using playDrum_plays_iff_known [of "''Snare''" "0::nat"] playDrum_plays_iff_known [of "''tom''" "0::nat"]
  by (simp add: toLowerCase_def toLowerCase_char_def char_of_eq_iff)

section \<open>Characters and white space\<close>

lemma canonicalize_lower_letter:
  assumes "97 \<le> (of_char x :: nat)" and "(of_char x :: nat) \<le> 122"
    and "canonicalize c = canonicalize x"
  shows "toLowerCase_char c = x"
proof -
  let ?n = "of_char c :: nat" and ?m = "of_char x :: nat"
  have cx: "canonicalize x = char_of (?m - 32)"
    using assms(1,2) by (simp add: canonicalize_def Let_def)
  show ?thesis
  proof (cases "(97 \<le> ?n \<and> ?n \<le> 122) \<or> (224 \<le> ?n \<and> ?n \<le> 254 \<and> ?n \<noteq> 247)")
    case True
    then have "canonicalize c = char_of (?n - 32)"
      unfolding canonicalize_def Let_def by (rule if_P)
    then have "char_of (?n - 32) = (char_of (?m - 32) :: char)"
      using assms(3) cx by simp
    then have e: "(?n - 32) mod 256 = (?m - 32) mod 256"
      by simp
    have ln: "?n - 32 < 256" and lm: "?m - 32 < 256"
      using nat_of_char_less_256 [of c] assms(2) by linarith+
    have "(?n - 32) mod 256 = ?n - 32" and "(?m - 32) mod 256 = ?m - 32"
      using mod_less [OF ln] mod_less [OF lm] by blast+
    with e have d: "?n - 32 = ?m - 32" by presburger
    have "c = x"
    proof (rule of_char_eqI)
      show "?n = ?m" using d True assms(1,2) by linarith
    qed
    then show ?thesis using assms(1,2) by (simp add: toLowerCase_char_def Let_def)
  next
    case False
    then have "canonicalize c = c"
      unfolding canonicalize_def Let_def by (rule if_not_P)
    then have "c = char_of (?m - 32)"
      using assms(3) cx by simp
    then have "?n = (?m - 32) mod 256" by (metis of_char_of)
    then have n: "?n = ?m - 32" using assms(2) by simp
    then have "(65 \<le> ?n \<and> ?n \<le> 90) \<or> (192 \<le> ?n \<and> ?n \<le> 222 \<and> ?n \<noteq> 215)"
      using assms(1,2) by linarith
    then have "toLowerCase_char c = char_of (?n + 32)"
      unfolding toLowerCase_char_def Let_def by (rule if_P)
    moreover have "?n + 32 = ?m"
      using n assms(1) by linarith
    ultimately show ?thesis by simp
  qed
qed

lemma toLowerCase_char_isSpace: "isSpace c \<Longrightarrow> toLowerCase_char c = c"
  by (auto simp add: isSpace_def toLowerCase_char_def)

lemma toLowerCase_char_colon: "toLowerCase_char (CHR '':'') = CHR '':''"
  by (simp add: toLowerCase_char_def Let_def)

lemma lower_letter_not_space: "lower_letter x \<Longrightarrow> \<not> isSpace x \<and> x \<noteq> CHR '':''"
  by (auto simp add: lower_letter_def isSpace_def)

lemma canonicalize_word:
  assumes "list_all lower_letter w" and "map canonicalize m = map canonicalize w"
  shows "toLowerCase m = w \<and> list_all (\<lambda>c. \<not> isSpace c \<and> c \<noteq> CHR '':'') m"
  using assms
proof (induction w arbitrary: m)
  case Nil
  then show ?case by (simp add: toLowerCase_def)
next
  case (Cons x w)
  then obtain c m' where m: "m = c # m'" by (cases m) auto
  with Cons.prems have x: "lower_letter x" and cx: "canonicalize c = canonicalize x"
    and rest: "list_all lower_letter w" "map canonicalize m' = map canonicalize w"
    by simp_all
  have low: "toLowerCase_char c = x"
    using x cx by (simp add: lower_letter_def canonicalize_lower_letter)
  have "\<not> isSpace c"
    using low x toLowerCase_char_isSpace lower_letter_not_space by metis
  moreover have "c \<noteq> CHR '':''"
    using low x toLowerCase_char_colon lower_letter_not_space by metis
  ultimately show ?case
    using Cons.IH [OF rest] low m by (simp add: toLowerCase_def)
qed

lemma ws_star_Some:
  "ws_star s k = Some r \<Longrightarrow> \<exists>w rest. s = w @ rest \<and> list_all isSpace w \<and> k rest = Some r"
proof (induction s)
  case Nil
  then show ?case by simp
next
  case (Cons c cs)
  show ?case
  proof (cases "isSpace c \<and> ws_star cs k \<noteq> None")
    case True
    then have "ws_star cs k = Some r"
      using Cons.prems by (auto simp add: or_else_def)
    from Cons.IH [OF this] obtain w rest where "cs = w @ rest" "list_all isSpace w" "k rest = Some r"
      by blast
    with True have "c # cs = (c # w) @ rest \<and> list_all isSpace (c # w) \<and> k rest = Some r"
      by simp
    then show ?thesis by blast
  next
    case False
    then have "k (c # cs) = Some r"
      using Cons.prems by (auto simp add: or_else_def split: if_splits)
    then have "c # cs = [] @ (c # cs) \<and> list_all isSpace [] \<and> k (c # cs) = Some r"
      by simp
    then show ?thesis by blast
  qed
qed

lemma isSpace_not_colon: "isSpace c \<Longrightarrow> c \<noteq> CHR '':''"
  by (auto simp add: isSpace_def)

lemma rtrim_is_take: "\<exists>j. rev (dropWhile P (rev d)) = take j d"
proof -
  have "rev (dropWhile P (rev d)) = rev (drop (length (takeWhile P (rev d))) (rev d))"
    by (simp add: dropWhile_eq_drop)
  also have "\<dots> = take (length d - length (takeWhile P (rev d))) d"
    by (simp add: rev_drop)
  finally show ?thesis by blast
qed

lemma startsWith_take: "startsWith (take j d) p \<Longrightarrow> startsWith d p"
  unfolding startsWith_def
  by (metis append_eq_conv_conj append_take_drop_id take_take min.commute length_take min_def take_all_iff)

lemma rtrim_keeps_prefix:
  assumes "startsWith d p" and "p \<noteq> []" and "\<not> P (last p)"
  shows "startsWith (rev (dropWhile P (rev d))) p"
proof -
  from assms(1) have d: "d = p @ drop (length p) d"
    unfolding startsWith_def by (metis append_take_drop_id)
  define r where "r = drop (length p) d"
  have "rev d = rev r @ rev p" using d r_def by (metis rev_append)
  then have "dropWhile P (rev d) = (if \<forall>x\<in>set (rev r). P x then dropWhile P (rev p) else dropWhile P (rev r) @ rev p)"
    by (simp add: dropWhile_append)
  moreover have "dropWhile P (rev p) = rev p"
    using assms(2,3) by (cases p rule: rev_cases) auto
  ultimately have "\<exists>q. dropWhile P (rev d) = q @ rev p" by auto
  then obtain q where "dropWhile P (rev d) = q @ rev p" by blast
  then have "rev (dropWhile P (rev d)) = p @ rev q" by simp
  then show ?thesis by (simp add: startsWith_def)
qed

lemma comment_iff: "startsWith (trim l) ''//'' \<longleftrightarrow> comment_line l"
proof
  assume "startsWith (trim l) ''//''"
  then show "comment_line l"
    unfolding trim_def comment_line_def
    using rtrim_is_take [of isSpace "dropWhile isSpace l"] startsWith_take by metis
next
  assume "comment_line l"
  then show "startsWith (trim l) ''//''"
    unfolding trim_def comment_line_def
    by (rule rtrim_keeps_prefix) (simp_all add: isSpace_def)
qed

lemma blank_iff: "trim l = [] \<longleftrightarrow> blank_line l"
proof -
  let ?d = "dropWhile isSpace l"
  have "trim l = [] \<longleftrightarrow> (\<forall>x\<in>set ?d. isSpace x)"
    by (simp add: trim_def dropWhile_eq_Nil_conv)
  also have "\<dots> \<longleftrightarrow> ?d = []"
    using hd_dropWhile [of isSpace l] by (metis empty_iff empty_set hd_in_set)
  also have "\<dots> \<longleftrightarrow> blank_line l"
    by (simp add: dropWhile_eq_Nil_conv blank_line_def list_all_iff)
  finally show ?thesis .
qed

lemma lit_ci_Some:
  "lit_ci w l k = Some r \<Longrightarrow>
     map canonicalize (take (length w) l) = map canonicalize w
     \<and> k (take (length w) l) (drop (length w) l) = Some r"
  by (simp add: lit_ci_def split: if_splits)

lemma after_name_Some:
  assumes "ws_star r1 (\<lambda>r2. colon r2 (\<lambda>r3. ws_star r3 (\<lambda>r4.
              map_option (\<lambda>m2. (m, m2)) (dot_plus_end r4)))) = Some (m1, m2)"
  shows "m = m1 \<and> (\<exists>w1 w2. r1 = w1 @ CHR '':'' # w2 @ m2 \<and> list_all isSpace w1
           \<and> list_all isSpace w2 \<and> m2 \<noteq> [])"
proof -
  from ws_star_Some [OF assms] obtain w1 a where
    r1: "r1 = w1 @ a" and w1: "list_all isSpace w1"
    and a: "colon a (\<lambda>r3. ws_star r3 (\<lambda>r4. map_option (\<lambda>m2. (m, m2)) (dot_plus_end r4))) = Some (m1, m2)"
    by blast
  from a obtain r3 where a3: "a = CHR '':'' # r3"
    and b: "ws_star r3 (\<lambda>r4. map_option (\<lambda>m2. (m, m2)) (dot_plus_end r4)) = Some (m1, m2)"
    by (auto simp add: colon_def split: list.splits if_splits)
  from ws_star_Some [OF b] obtain w2 r4 where
    r3: "r3 = w2 @ r4" and w2: "list_all isSpace w2"
    and c: "map_option (\<lambda>m2. (m, m2)) (dot_plus_end r4) = Some (m1, m2)"
    by blast
  from c have "m = m1" and "r4 = m2" and "m2 \<noteq> []"
    by (auto simp add: dot_plus_end_def split: if_splits)
  with r1 a3 r3 w1 w2 show ?thesis by auto
qed

lemma line_match_Some:
  assumes "line_match l = Some (m1, m2)"
  shows "\<exists>T w1 w2. l = m1 @ w1 @ CHR '':'' # w2 @ m2 \<and> list_all isSpace w1 \<and> list_all isSpace w2
           \<and> m2 \<noteq> [] \<and> toLowerCase m1 = track_name T
           \<and> list_all (\<lambda>c. \<not> isSpace c \<and> c \<noteq> CHR '':'') m1"
proof -
  let ?k = "\<lambda>m r1. ws_star r1 (\<lambda>r2. colon r2 (\<lambda>r3. ws_star r3 (\<lambda>r4.
              map_option (\<lambda>m2. (m, m2)) (dot_plus_end r4))))"
  from assms have "lit_ci ''drums'' l ?k = Some (m1, m2) \<or> lit_ci ''bass'' l ?k = Some (m1, m2)
      \<or> lit_ci ''synth'' l ?k = Some (m1, m2)"
    by (auto simp add: line_match_def or_else_def Let_def split: option.splits)
  then obtain T where T: "lit_ci (track_name T) l ?k = Some (m1, m2)"
    by (metis track_name.simps)
  let ?n = "length (track_name T)"
  from lit_ci_Some [OF T] have
    cn: "map canonicalize (take ?n l) = map canonicalize (track_name T)"
    and k: "?k (take ?n l) (drop ?n l) = Some (m1, m2)"
    by blast+
  from after_name_Some [OF k] obtain w1 w2 where
    m1: "take ?n l = m1" and dr: "drop ?n l = w1 @ CHR '':'' # w2 @ m2"
    and ws: "list_all isSpace w1" "list_all isSpace w2" "m2 \<noteq> []"
    by blast
  have "list_all lower_letter (track_name T)"
    by (cases T) (simp_all add: lower_letter_def)
  from canonicalize_word [OF this cn] m1 have
    "toLowerCase m1 = track_name T" "list_all (\<lambda>c. \<not> isSpace c \<and> c \<noteq> CHR '':'') m1"
    by simp_all
  moreover have "l = m1 @ w1 @ CHR '':'' # w2 @ m2"
    using m1 dr by (metis append_take_drop_id)
  ultimately show ?thesis using ws by blast
qed

section \<open>The lines the line expression matches\<close>

lemma or_else_None: "or_else a b = None \<longleftrightarrow> a = None \<and> b = None"
  by (simp add: or_else_def split: option.splits)

lemma ws_star_at_least: "k s \<noteq> None \<Longrightarrow> ws_star s k \<noteq> None"
  by (cases s) (auto simp add: or_else_def split: option.splits)

lemma ws_star_complete:
  "list_all isSpace w \<Longrightarrow> k rest \<noteq> None \<Longrightarrow> ws_star (w @ rest) k \<noteq> None"
proof (induction w)
  case Nil
  then show ?case using ws_star_at_least [of k rest] by simp
next
  case (Cons c w)
  then have "ws_star (w @ rest) k \<noteq> None" by simp
  then show ?case using Cons.prems(1) by (auto simp add: or_else_def)
qed

lemma after_name_LT:
  assumes "ws_star r1 (\<lambda>r2. colon r2 (\<lambda>r3. ws_star r3 (\<lambda>r4.
              map_option (\<lambda>m2. (m, m2)) (dot_plus_end r4)))) = Some (m1, m2)"
  shows "list_all (\<lambda>c. \<not> isLineTerminator c) m2"
proof -
  from ws_star_Some [OF assms] obtain w1 a where
    a: "colon a (\<lambda>r3. ws_star r3 (\<lambda>r4. map_option (\<lambda>m2. (m, m2)) (dot_plus_end r4))) = Some (m1, m2)"
    by blast
  from a obtain r3 where
    b: "ws_star r3 (\<lambda>r4. map_option (\<lambda>m2. (m, m2)) (dot_plus_end r4)) = Some (m1, m2)"
    by (auto simp add: colon_def split: list.splits if_splits)
  from ws_star_Some [OF b] obtain r4 where
    c: "map_option (\<lambda>m2. (m, m2)) (dot_plus_end r4) = Some (m1, m2)"
    by blast
  then show ?thesis
    by (auto simp add: dot_plus_end_def split: if_splits)
qed

lemma after_name_complete:
  assumes "list_all isSpace w1" and "list_all isSpace w2" and "m2 \<noteq> []"
    and "list_all (\<lambda>c. \<not> isLineTerminator c) m2"
  shows "ws_star (w1 @ CHR '':'' # w2 @ m2) (\<lambda>r2. colon r2 (\<lambda>r3. ws_star r3 (\<lambda>r4.
              map_option (\<lambda>m2. (m, m2)) (dot_plus_end r4)))) \<noteq> None"
proof -
  have "map_option (\<lambda>m2. (m, m2)) (dot_plus_end m2) \<noteq> None"
    using assms(3,4) by (simp add: dot_plus_end_def)
  then have "ws_star (w2 @ m2) (\<lambda>r4. map_option (\<lambda>m2. (m, m2)) (dot_plus_end r4)) \<noteq> None"
    using assms(2) by (rule ws_star_complete [rotated])
  then have "colon (CHR '':'' # w2 @ m2) (\<lambda>r3. ws_star r3 (\<lambda>r4.
              map_option (\<lambda>m2. (m, m2)) (dot_plus_end r4))) \<noteq> None"
    by (simp add: colon_def)
  then show ?thesis
    using assms(1) by (rule ws_star_complete [rotated])
qed

text \<open>
  The lines the line expression matches: a track name in any case at the very start, white
  space, a colon, white space, and then at least one character up to the end of the line,
  none of them a line terminator.
\<close>

lemma line_match_shape:
  "line_match l \<noteq> None \<longleftrightarrow>
     (\<exists>T m1 w1 w2 m2. l = m1 @ w1 @ CHR '':'' # w2 @ m2
        \<and> map canonicalize m1 = map canonicalize (track_name T)
        \<and> list_all isSpace w1 \<and> list_all isSpace w2
        \<and> m2 \<noteq> [] \<and> list_all (\<lambda>c. \<not> isLineTerminator c) m2)"
  (is "?L \<longleftrightarrow> ?R")
proof
  let ?k = "\<lambda>m r1. ws_star r1 (\<lambda>r2. colon r2 (\<lambda>r3. ws_star r3 (\<lambda>r4.
              map_option (\<lambda>m2. (m, m2)) (dot_plus_end r4))))"
  assume ?L
  then obtain m1 m2 where m: "line_match l = Some (m1, m2)" by auto
  then have "lit_ci ''drums'' l ?k = Some (m1, m2) \<or> lit_ci ''bass'' l ?k = Some (m1, m2)
      \<or> lit_ci ''synth'' l ?k = Some (m1, m2)"
    by (auto simp add: line_match_def or_else_def Let_def split: option.splits)
  then obtain T where T: "lit_ci (track_name T) l ?k = Some (m1, m2)"
    by (metis track_name.simps)
  let ?n = "length (track_name T)"
  from lit_ci_Some [OF T] have
    cn: "map canonicalize (take ?n l) = map canonicalize (track_name T)"
    and k: "?k (take ?n l) (drop ?n l) = Some (m1, m2)"
    by blast+
  from after_name_Some [OF k] obtain w1 w2 where
    m1: "take ?n l = m1" and dr: "drop ?n l = w1 @ CHR '':'' # w2 @ m2"
    and ws: "list_all isSpace w1" "list_all isSpace w2" "m2 \<noteq> []"
    by blast
  have "l = m1 @ w1 @ CHR '':'' # w2 @ m2"
    using m1 dr by (metis append_take_drop_id)
  with cn m1 ws after_name_LT [OF k] show ?R by blast
next
  let ?k = "\<lambda>m r1. ws_star r1 (\<lambda>r2. colon r2 (\<lambda>r3. ws_star r3 (\<lambda>r4.
              map_option (\<lambda>m2. (m, m2)) (dot_plus_end r4))))"
  assume ?R
  then obtain T m1 w1 w2 m2 where l: "l = m1 @ w1 @ CHR '':'' # w2 @ m2"
    and cn: "map canonicalize m1 = map canonicalize (track_name T)"
    and rest: "list_all isSpace w1" "list_all isSpace w2" "m2 \<noteq> []"
      "list_all (\<lambda>c. \<not> isLineTerminator c) m2"
    by blast
  from cn have len: "length m1 = length (track_name T)"
    by (metis length_map)
  have k: "?k m1 (w1 @ CHR '':'' # w2 @ m2) \<noteq> None"
    using rest by (rule after_name_complete)
  have "lit_ci (track_name T) l ?k \<noteq> None"
    unfolding lit_ci_def l using len cn k by simp
  then show ?L
    by (cases T) (simp_all add: line_match_def Let_def or_else_None)
qed

lemma line_with_carriage_return: "line_match (''drums: kick'' @ [CHR 0x0D]) = None"
  by code_simp

section \<open>The parser's tokens are the runs without white space\<close>

lemma tokens_from_run:
  "list_all (\<lambda>c. \<not> isSpace c) p \<Longrightarrow> tokens_from cur (p @ r) = tokens_from (rev p @ cur) r"
  by (induction p arbitrary: cur) simp_all

lemma tokens_from_leading_space:
  "list_all isSpace w \<Longrightarrow> tokens_from [] (w @ r) = tokens_from [] r"
  by (induction w) simp_all

lemma tokens_from_trailing_space:
  "list_all isSpace w \<Longrightarrow> tokens_from cur (s @ w) = tokens_from cur s"
proof (induction s arbitrary: cur)
  case Nil
  then show ?case
  proof (induction w arbitrary: cur)
    case Nil
    show ?case by simp
  next
    case (Cons c w)
    then have "tokens_from [] w = []" by fastforce
    then show ?case using Cons.prems by simp
  qed
next
  case (Cons c s)
  then show ?case by simp
qed

lemma takeWhile_dropWhile_space:
  "list_all isSpace (takeWhile isSpace s)" "list_all (\<lambda>c. \<not> isSpace c) (takeWhile (\<lambda>c. \<not> isSpace c) s)"
  by (simp_all add: list_all_iff) (auto dest: set_takeWhileD)

lemma tokens_dropWhile: "tokens_from [] (dropWhile isSpace s) = tokens_from [] s"
proof -
  have "tokens_from [] (takeWhile isSpace s @ dropWhile isSpace s) = tokens_from [] (dropWhile isSpace s)"
    by (rule tokens_from_leading_space) (rule takeWhile_dropWhile_space)
  then show ?thesis by simp
qed

lemma tokens_trim: "tokens (trim s) = tokens s"
proof -
  let ?d = "dropWhile isSpace s"
  have "?d = rev (dropWhile isSpace (rev ?d)) @ rev (takeWhile isSpace (rev ?d))"
    by (metis rev_append rev_rev_ident takeWhile_dropWhile_id)
  moreover have "list_all isSpace (rev (takeWhile isSpace (rev ?d)))"
    using takeWhile_dropWhile_space(1) [of "rev ?d"] by (simp add: list_all_iff)
  ultimately have "tokens_from [] ?d = tokens_from [] (rev (dropWhile isSpace (rev ?d)))"
    using tokens_from_trailing_space by metis
  then show ?thesis
    by (simp add: tokens_def trim_def tokens_dropWhile)
qed

lemma tokens_from_step:
  "tokens_from [] s =
     (let piece = takeWhile (\<lambda>c. \<not> isSpace c) s; r = dropWhile (\<lambda>c. \<not> isSpace c) s
      in (if piece = [] then [] else [piece])
         @ (case r of [] \<Rightarrow> [] | _ # _ \<Rightarrow> tokens_from [] (dropWhile isSpace r)))"
proof -
  define p where "p = takeWhile (\<lambda>c. \<not> isSpace c) s"
  define r where "r = dropWhile (\<lambda>c. \<not> isSpace c) s"
  have "tokens_from [] (p @ r) = tokens_from (rev p @ []) r"
    unfolding p_def by (rule tokens_from_run) (rule takeWhile_dropWhile_space)
  then have run: "tokens_from [] s = tokens_from (rev p) r"
    by (simp add: p_def r_def)
  have "tokens_from (rev p) r =
      (if p = [] then [] else [p])
      @ (case r of [] \<Rightarrow> [] | _ # _ \<Rightarrow> tokens_from [] (dropWhile isSpace r))"
  proof (cases r)
    case Nil
    then show ?thesis by simp
  next
    case (Cons c r')
    then have sp: "isSpace c"
      using hd_dropWhile [of "\<lambda>c. \<not> isSpace c" s] unfolding r_def by force
    have "tokens_from [] r' = tokens_from [] (dropWhile isSpace r')"
      by (simp add: tokens_dropWhile)
    then show ?thesis using Cons sp by simp
  qed
  then show ?thesis
    unfolding run Let_def p_def r_def .
qed

lemma split_ws_tokens: "filter (\<lambda>n. 0 < length n) (split_ws s) = tokens_from [] s"
proof (induction s rule: split_ws.induct)
  case (1 s)
  define p where "p = takeWhile (\<lambda>c. \<not> isSpace c) s"
  define r where "r = dropWhile (\<lambda>c. \<not> isSpace c) s"
  have sw: "split_ws s = (case r of [] \<Rightarrow> [p] | _ # _ \<Rightarrow> p # split_ws (dropWhile isSpace r))"
    unfolding p_def r_def by (subst split_ws.simps) (simp add: Let_def)
  have tk: "tokens_from [] s = (if p = [] then [] else [p])
         @ (case r of [] \<Rightarrow> [] | _ # _ \<Rightarrow> tokens_from [] (dropWhile isSpace r))"
    unfolding p_def r_def by (subst tokens_from_step) (simp add: Let_def)
  show ?case
  proof (cases r)
    case Nil
    then show ?thesis unfolding sw tk by simp
  next
    case (Cons c r')
    from "1.IH" [OF p_def r_def Cons]
    have "filter (\<lambda>n. 0 < length n) (split_ws (dropWhile isSpace r)) = tokens_from [] (dropWhile isSpace r)" .
    with Cons show ?thesis unfolding sw tk by simp
  qed
qed

lemma notes_are_tokens: "filter (\<lambda>n. 0 < length n) (split_ws (trim r)) = tokens r"
  by (simp only: split_ws_tokens tokens_trim [unfolded tokens_def] tokens_def)

section \<open>What a line contributes\<close>

lemma blank_line_no_track: "blank_line l \<Longrightarrow> line_track l = None"
proof -
  assume "blank_line l"
  then have "\<forall>x\<in>set (rev (takeWhile (\<lambda>c. c \<noteq> CHR '':'') l)). isSpace x"
    by (auto simp add: blank_line_def list_all_iff dest: set_takeWhileD)
  then have "track_name_of l = []"
    by (simp only: track_name_of_def dropWhile_eq_Nil_conv [THEN iffD2] rev.simps)
  then show ?thesis
    by (simp add: line_track_def track_named_def toLowerCase_def)
qed

lemma matched_line_parts:
  assumes "line_match l = Some (m1, m2)"
  shows "\<exists>T. toLowerCase m1 = track_name T \<and> line_track l = Some T
           \<and> tokens (line_rest l) = filter (\<lambda>n. 0 < length n) (split_ws (trim m2))"
proof -
  from line_match_Some [OF assms] obtain T w1 w2 where
    l: "l = m1 @ w1 @ CHR '':'' # w2 @ m2"
    and w1: "list_all isSpace w1" and w2: "list_all isSpace w2"
    and low: "toLowerCase m1 = track_name T"
    and m1: "list_all (\<lambda>c. \<not> isSpace c \<and> c \<noteq> CHR '':'') m1"
    by blast
  have nocolon: "\<And>x. x \<in> set (m1 @ w1) \<Longrightarrow> x \<noteq> CHR '':''"
    using m1 w1 by (auto simp add: list_all_iff dest: isSpace_not_colon)
  have l': "l = (m1 @ w1) @ CHR '':'' # w2 @ m2"
    using l by simp
  have tw: "takeWhile (\<lambda>c. c \<noteq> CHR '':'') l = m1 @ w1"
    by (subst l', subst takeWhile_append2) (use nocolon in simp_all)
  have dw: "dropWhile (\<lambda>c. c \<noteq> CHR '':'') l = CHR '':'' # w2 @ m2"
    by (subst l', subst dropWhile_append2) (use nocolon in simp_all)
  have "m1 \<noteq> []"
    using low by (cases T) (auto simp add: toLowerCase_def)
  then obtain a b where ab: "m1 = a @ [b]"
    by (cases m1 rule: rev_cases) auto
  then have "\<not> isSpace b" using m1 by simp
  then have "dropWhile isSpace (rev m1) = rev m1"
    using ab by simp
  moreover have "dropWhile isSpace (rev w1 @ rev m1) = dropWhile isSpace (rev m1)"
    by (rule dropWhile_append2) (use w1 in \<open>simp add: list_all_iff\<close>)
  ultimately have name: "track_name_of l = m1"
    by (simp add: track_name_of_def tw)
  have track: "line_track l = Some T"
    unfolding line_track_def name low by (cases T) (simp_all add: track_named_def)
  have "dropWhile isSpace (w2 @ m2) = dropWhile isSpace m2"
    by (rule dropWhile_append2) (use w2 in \<open>simp add: list_all_iff\<close>)
  then have "trim (line_rest l) = trim m2"
    by (simp add: trim_def line_rest_def dw)
  then have "tokens (trim (line_rest l)) = tokens (trim m2)"
    by simp
  then have "tokens (line_rest l) = tokens m2"
    by (simp only: tokens_trim)
  then have "tokens (line_rest l) = filter (\<lambda>n. 0 < length n) (split_ws (trim m2))"
    by (simp only: notes_are_tokens)
  with low track show ?thesis by blast
qed

lemma no_track_no_match: "line_track l = None \<Longrightarrow> line_match l = None"
  using matched_line_parts [of l] by (cases "line_match l") auto

section \<open>The shape of a line, without the line expression\<close>

lemma text_lines_nonempty: "text_lines s \<noteq> []"
  by (induction s) (simp_all split: list.splits)

lemma split_nl_from_text_lines:
  "split_nl_from cur s = (rev cur @ hd (text_lines s)) # tl (text_lines s)"
proof (induction s arbitrary: cur)
  case Nil
  show ?case by simp
next
  case (Cons c s)
  obtain l ls where t: "text_lines s = l # ls"
    using text_lines_nonempty [of s] by (cases "text_lines s") auto
  show ?case
    by (simp add: Cons.IH t)
qed

lemma split_nl_text_lines: "split_nl code = text_lines code"
  using text_lines_nonempty [of code]
  by (simp add: split_nl_def split_nl_from_text_lines)

lemma toLowerCase_lower_letter:
  assumes "lower_letter x" and "toLowerCase_char c = x"
  shows "canonicalize c = canonicalize x"
proof -
  let ?n = "of_char c :: nat" and ?m = "of_char x :: nat"
  have mx: "97 \<le> ?m" "?m \<le> 122" using assms(1) by (simp_all add: lower_letter_def)
  show ?thesis
  proof (cases "(65 \<le> ?n \<and> ?n \<le> 90) \<or> (192 \<le> ?n \<and> ?n \<le> 222 \<and> ?n \<noteq> 215)")
    case True
    then have "toLowerCase_char c = char_of (?n + 32)"
      unfolding toLowerCase_char_def Let_def by (rule if_P)
    then have "char_of (?n + 32) = x" using assms(2) by simp
    then have "(?n + 32) mod 256 = ?m" by (metis of_char_of)
    moreover have "?n + 32 < 256" using True by linarith
    ultimately have e: "?n + 32 = ?m" by simp
    then have up: "65 \<le> ?n \<and> ?n \<le> 90" using mx by linarith
    then have "\<not> ((97 \<le> ?n \<and> ?n \<le> 122) \<or> (224 \<le> ?n \<and> ?n \<le> 254 \<and> ?n \<noteq> 247))"
      by linarith
    then have cc: "canonicalize c = c"
      unfolding canonicalize_def Let_def by (rule if_not_P)
    have "(97 \<le> ?m \<and> ?m \<le> 122) \<or> (224 \<le> ?m \<and> ?m \<le> 254 \<and> ?m \<noteq> 247)"
      using mx by linarith
    then have "canonicalize x = char_of (?m - 32)"
      unfolding canonicalize_def Let_def by (rule if_P)
    moreover have "?m - 32 = ?n" using e by linarith
    ultimately show ?thesis using cc by simp
  next
    case False
    then have "toLowerCase_char c = c"
      unfolding toLowerCase_char_def Let_def by (rule if_not_P)
    then show ?thesis using assms(2) by simp
  qed
qed

lemma toLowerCase_word:
  assumes "list_all lower_letter w" and "toLowerCase m = w"
  shows "map canonicalize m = map canonicalize w"
  using assms
proof (induction w arbitrary: m)
  case Nil
  then show ?case by (simp add: toLowerCase_def)
next
  case (Cons x w)
  then obtain c m' where m: "m = c # m'" by (cases m) (auto simp add: toLowerCase_def)
  with Cons.prems have "lower_letter x" "toLowerCase_char c = x"
    "list_all lower_letter w" "toLowerCase m' = w"
    by (simp_all add: toLowerCase_def)
  then show ?case
    using Cons.IH [of m'] m by (simp add: toLowerCase_lower_letter)
qed

lemma track_name_letters: "list_all lower_letter (track_name T)"
  by (cases T) (simp_all add: lower_letter_def)

lemma track_named_Some: "track_named n = Some T \<Longrightarrow> n = track_name T"
  by (cases T) (auto simp add: track_named_def split: if_splits)

text \<open>A line with a colon falls into the text before it and the rest.\<close>

lemma line_at_colon:
  "CHR '':'' \<in> set l \<Longrightarrow> l = takeWhile (\<lambda>c. c \<noteq> CHR '':'') l @ CHR '':'' # line_rest l"
proof -
  assume c: "CHR '':'' \<in> set l"
  then have "dropWhile (\<lambda>c. c \<noteq> CHR '':'') l \<noteq> []"
    by (simp add: dropWhile_eq_Nil_conv)
  then obtain x r where d: "dropWhile (\<lambda>c. c \<noteq> CHR '':'') l = x # r"
    by (cases "dropWhile (\<lambda>c. c \<noteq> CHR '':'') l") auto
  then have "x = CHR '':''"
    using hd_dropWhile [of "\<lambda>c. c \<noteq> CHR '':''" l] by force
  with d have "dropWhile (\<lambda>c. c \<noteq> CHR '':'') l = CHR '':'' # line_rest l"
    by (simp add: line_rest_def)
  then show ?thesis
    by (metis takeWhile_dropWhile_id)
qed

lemma rtrim_split: "d = rev (dropWhile Q (rev d)) @ rev (takeWhile Q (rev d))"
  by (metis rev_append rev_rev_ident takeWhile_dropWhile_id)

lemma rev_takeWhile_all: "list_all Q (rev (takeWhile Q xs))"
  by (simp add: list_all_iff) (auto dest: set_takeWhileD)

lemma rest_matches_split:
  "rest_matches r \<longleftrightarrow>
     (\<exists>w2 m2. r = w2 @ m2 \<and> list_all isSpace w2 \<and> m2 \<noteq> []
        \<and> list_all (\<lambda>c. \<not> isLineTerminator c) m2)"
  (is "?L \<longleftrightarrow> ?R")
proof
  assume l: ?L
  define w2 where "w2 = rev (dropWhile (\<lambda>c. \<not> isLineTerminator c) (rev r))"
  define m2 where "m2 = rev (takeWhile (\<lambda>c. \<not> isLineTerminator c) (rev r))"
  have r: "r = w2 @ m2"
    unfolding w2_def m2_def by (rule rtrim_split)
  have ws: "list_all isSpace w2"
    using l by (simp add: rest_matches_def w2_def)
  have lt: "list_all (\<lambda>c. \<not> isLineTerminator c) m2"
    unfolding m2_def by (rule rev_takeWhile_all)
  from l have "r \<noteq> []" and "\<not> isLineTerminator (last r)"
    by (simp_all add: rest_matches_def)
  then have "takeWhile (\<lambda>c. \<not> isLineTerminator c) (rev r) \<noteq> []"
    by (cases r rule: rev_cases) auto
  then have "m2 \<noteq> []" by (simp add: m2_def)
  with r ws lt show ?R by blast
next
  assume ?R
  then obtain w2 m2 where r: "r = w2 @ m2" and ws: "list_all isSpace w2" and ne: "m2 \<noteq> []"
    and lt: "list_all (\<lambda>c. \<not> isLineTerminator c) m2"
    by blast
  have "dropWhile (\<lambda>c. \<not> isLineTerminator c) (rev m2 @ rev w2)
      = dropWhile (\<lambda>c. \<not> isLineTerminator c) (rev w2)"
    by (rule dropWhile_append2) (use lt in \<open>simp add: list_all_iff\<close>)
  moreover obtain j where "rev (dropWhile (\<lambda>c. \<not> isLineTerminator c) (rev w2)) = take j w2"
    using rtrim_is_take by blast
  moreover have "list_all isSpace (take j w2)" for j
    using ws by (auto simp add: list_all_iff dest: in_set_takeD)
  ultimately have "list_all isSpace (rev (dropWhile (\<lambda>c. \<not> isLineTerminator c) (rev r)))"
    by (simp add: r)
  moreover have "\<not> isLineTerminator (last r)"
    using ne lt r by (cases m2 rule: rev_cases) auto
  ultimately show ?L
    using ne r by (simp add: rest_matches_def)
qed

lemma shaped_line_parts:
  assumes l: "l = m1 @ w1 @ CHR '':'' # r"
    and cn: "map canonicalize m1 = map canonicalize (track_name T)"
    and w1: "list_all isSpace w1"
  shows "line_rest l = r \<and> line_track l = Some T \<and> CHR '':'' \<in> set l"
proof -
  from canonicalize_word [OF track_name_letters cn] have
    low: "toLowerCase m1 = track_name T"
    and m1: "list_all (\<lambda>c. \<not> isSpace c \<and> c \<noteq> CHR '':'') m1"
    by simp_all
  have nocolon: "\<And>x. x \<in> set (m1 @ w1) \<Longrightarrow> x \<noteq> CHR '':''"
    using m1 w1 by (auto simp add: list_all_iff dest: isSpace_not_colon)
  have l': "l = (m1 @ w1) @ CHR '':'' # r"
    using l by simp
  have tw: "takeWhile (\<lambda>c. c \<noteq> CHR '':'') l = m1 @ w1"
    by (subst l', subst takeWhile_append2) (use nocolon in simp_all)
  have dw: "dropWhile (\<lambda>c. c \<noteq> CHR '':'') l = CHR '':'' # r"
    by (subst l', subst dropWhile_append2) (use nocolon in simp_all)
  have "m1 \<noteq> []"
    using low by (cases T) (auto simp add: toLowerCase_def)
  then obtain a b where ab: "m1 = a @ [b]"
    by (cases m1 rule: rev_cases) auto
  then have "\<not> isSpace b" using m1 by simp
  then have "dropWhile isSpace (rev m1) = rev m1"
    using ab by simp
  moreover have "dropWhile isSpace (rev w1 @ rev m1) = dropWhile isSpace (rev m1)"
    by (rule dropWhile_append2) (use w1 in \<open>simp add: list_all_iff\<close>)
  ultimately have name: "track_name_of l = m1"
    by (simp add: track_name_of_def tw)
  have "line_track l = Some T"
    unfolding line_track_def name low by (cases T) (simp_all add: track_named_def)
  moreover have "line_rest l = r"
    by (simp add: line_rest_def dw)
  moreover have "CHR '':'' \<in> set l"
    by (subst l) simp
  ultimately show ?thesis by blast
qed

text \<open>
  The line expression matches exactly the lines that have the shape and a track name that is
  one of the three.
\<close>

lemma shape_iff_match: "line_match l \<noteq> None \<longleftrightarrow> has_shape l \<and> line_track l \<noteq> None"
proof
  assume "line_match l \<noteq> None"
  then obtain T m1 w1 w2 m2 where l: "l = m1 @ w1 @ CHR '':'' # w2 @ m2"
    and cn: "map canonicalize m1 = map canonicalize (track_name T)"
    and w1: "list_all isSpace w1" and w2: "list_all isSpace w2"
    and m2: "m2 \<noteq> []" "list_all (\<lambda>c. \<not> isLineTerminator c) m2"
    unfolding line_match_shape by blast
  from shaped_line_parts [OF l cn w1] have
    "line_rest l = w2 @ m2" "line_track l = Some T" "CHR '':'' \<in> set l"
    by blast+
  moreover have "rest_matches (w2 @ m2)"
    unfolding rest_matches_split using w2 m2 by blast
  ultimately show "has_shape l \<and> line_track l \<noteq> None"
    by (simp add: has_shape_def)
next
  assume a: "has_shape l \<and> line_track l \<noteq> None"
  then obtain T where T: "line_track l = Some T" by auto
  define pre where "pre = takeWhile (\<lambda>c. c \<noteq> CHR '':'') l"
  define m1 where "m1 = rev (dropWhile isSpace (rev pre))"
  define w1 where "w1 = rev (takeWhile isSpace (rev pre))"
  from a have l: "l = pre @ CHR '':'' # line_rest l"
    unfolding pre_def by (simp add: has_shape_def line_at_colon [symmetric])
  have pre: "pre = m1 @ w1"
    unfolding m1_def w1_def by (rule rtrim_split)
  have w1: "list_all isSpace w1"
    unfolding w1_def by (rule rev_takeWhile_all)
  from T have "toLowerCase m1 = track_name T"
    unfolding line_track_def track_name_of_def m1_def pre_def by (rule track_named_Some)
  then have cn: "map canonicalize m1 = map canonicalize (track_name T)"
    using track_name_letters by (rule toLowerCase_word [rotated])
  from a obtain w2 m2 where "line_rest l = w2 @ m2" "list_all isSpace w2" "m2 \<noteq> []"
    "list_all (\<lambda>c. \<not> isLineTerminator c) m2"
    unfolding has_shape_def rest_matches_split by blast
  with l pre cn w1 have "\<exists>T m1 w1 w2 m2. l = m1 @ w1 @ CHR '':'' # w2 @ m2
        \<and> map canonicalize m1 = map canonicalize (track_name T)
        \<and> list_all isSpace w1 \<and> list_all isSpace w2
        \<and> m2 \<noteq> [] \<and> list_all (\<lambda>c. \<not> isLineTerminator c) m2"
    by (metis append.assoc)
  then show "line_match l \<noteq> None"
    unfolding line_match_shape .
qed

lemma skipped_iff:
  "skipped l \<longleftrightarrow> blank_line l \<or> comment_line l \<or> line_match l = None"
  using shape_iff_match [of l] by (auto simp add: skipped_def)

section \<open>The parser and the compiler agree\<close>

lemma parse_line_skipped:
  assumes "skipped l"
  shows "parse_line P l = P"
proof (cases "comment_line l")
  case True
  then show ?thesis
    by (simp add: parse_line_def comment_iff)
next
  case False
  with assms have "blank_line l \<or> line_match l = None \<or> line_track l = None"
    by (auto simp add: skipped_iff)
  then have "line_match l = None"
    using blank_line_no_track [of l] no_track_no_match [of l] by blast
  then show ?thesis
    by (simp add: parse_line_def)
qed

lemma parse_line_compiled:
  assumes "\<not> skipped l"
  shows "\<exists>T. line_track l = Some T \<and> (\<forall>P. parse_line P l = store T (tokens (line_rest l)) P)"
proof -
  from assms have nc: "\<not> startsWith (trim l) ''//''" and "line_match l \<noteq> None"
    by (simp_all add: skipped_iff comment_iff)
  then obtain m1 m2 where m: "line_match l = Some (m1, m2)" by auto
  from matched_line_parts [OF m] obtain T where
    low: "toLowerCase m1 = track_name T" and track: "line_track l = Some T"
    and nts: "tokens (line_rest l) = filter (\<lambda>n. 0 < length n) (split_ws (trim m2))"
    by blast
  have "parse_line P l = store T (tokens (line_rest l)) P" for P
    unfolding nts
    by (cases T) (simp_all add: parse_line_def nc m low Let_def)
  with track show ?thesis by blast
qed

lemma fold_unskipped:
  "foldl parse_line P (filter (\<lambda>line. 0 < length (trim line)) ls)
     = foldl parse_line P (filter (\<lambda>l. \<not> skipped l) ls)"
proof (induction ls arbitrary: P)
  case Nil
  show ?case by simp
next
  case (Cons l ls)
  show ?case
  proof (cases "skipped l")
    case True
    then show ?thesis
      using Cons.IH by (simp add: parse_line_skipped)
  next
    case False
    then have "0 < length (trim l)"
      by (simp add: blank_iff skipped_iff)
    with False show ?thesis
      using Cons.IH by simp
  qed
qed

lemma parse_unskipped:
  "parse code = foldl parse_line no_patterns (filter (\<lambda>l. \<not> skipped l) (split_nl code))"
  unfolding parse_def Let_def by (rule fold_unskipped)

lemma parse_line_compile_line: "\<not> skipped l \<Longrightarrow> parse_line P l = compile_line P l"
  using parse_line_compiled [of l] by (auto simp add: compile_line_def)

lemma fold_compile_line:
  "foldl parse_line P (filter (\<lambda>l. \<not> skipped l) ls) = foldl compile_line P ls"
proof (induction ls arbitrary: P)
  case Nil
  show ?case by simp
next
  case (Cons l ls)
  show ?case
  proof (cases "skipped l")
    case True
    then show ?thesis using Cons.IH by (simp add: compile_line_def)
  next
    case False
    then show ?thesis using Cons.IH by (simp add: parse_line_compile_line)
  qed
qed

lemma parse_compile: "parse code = compile code"
  by (simp only: parse_unskipped fold_compile_line compile_def split_nl_text_lines)

lemma pattern_of_store: "pattern_of T (store T' ns P) = (if T = T' then Some ns else pattern_of T P)"
  by (cases T; cases T') simp_all

lemma later_lines_keep:
  assumes "\<forall>l'\<in>set ys. skipped l' \<or> line_track l' \<noteq> Some T"
  shows "pattern_of T (foldl parse_line P (filter (\<lambda>l. \<not> skipped l) ys)) = pattern_of T P"
  using assms
proof (induction ys arbitrary: P)
  case Nil
  show ?case by simp
next
  case (Cons y ys)
  show ?case
  proof (cases "skipped y")
    case True
    then show ?thesis using Cons by simp
  next
    case False
    from parse_line_compiled [OF False] obtain T' where
      T': "line_track y = Some T'" and st: "parse_line P y = store T' (tokens (line_rest y)) P"
      by blast
    have "T' \<noteq> T" using Cons.prems False T' by auto
    then have "pattern_of T (parse_line P y) = pattern_of T P"
      by (simp add: st pattern_of_store)
    then show ?thesis
      using Cons False by simp
  qed
qed

lemma parse_piano: "parse ''piano: C4 C4'' = no_patterns"
  by code_simp

lemma parse_kick_snare:
  "parse (''drums: kick'' @ [CHR 0x0A] @ ''drums: snare'') = \<lparr>drums = Some [''snare''], bass = None, synth = None\<rparr>"
  by code_simp

section \<open>Skipped lines\<close>

lemma parse_song_text:
  "parse song_text = \<lparr>drums = Some [''kick'', ''snare''], bass = None, synth = Some [''C4'', ''E4'']\<rparr>"
  unfolding song_text_def by code_simp

text \<open>
  C2 as the specification states it fails on a line that ends in a carriage return: it is
  neither blank nor a comment, its track name is \<open>drums\<close> and it has the token \<open>kick\<close>, so it is
  none of the lines to be skipped, and yet it contributes nothing.
\<close>

theorem parse_counterexample:
  "\<not> blank_line (''drums: kick'' @ [CHR 0x0D])
   \<and> \<not> comment_line (''drums: kick'' @ [CHR 0x0D])
   \<and> line_track (''drums: kick'' @ [CHR 0x0D]) = Some Drums
   \<and> tokens (line_rest (''drums: kick'' @ [CHR 0x0D])) = [''kick'']
   \<and> parse (''drums: kick'' @ [CHR 0x0D]) = no_patterns"
  by code_simp

text \<open>
  C2, amended.  The parser has no failing branch, and for every text its result is that of
  the compiler of the specification, which walks over the lines of the text, skips some and
  stores the tokens of the others.  Skipped are the blank lines, the comment lines, the lines
  whose track name is none of \<open>drums\<close>, \<open>bass\<close>, \<open>synth\<close> (in any case), and the lines without
  the shape, where the shape asks for a colon and for a rest of the line after it that is not
  empty, does not end in a line terminator and has white space only up to its last line
  terminator.  In the parser's loop a skipped line leaves the pattern set as it is, and every
  other line stores its tokens as the pattern of its track.  The text of seven lines gives
  the percussion \<open>[kick, snare]\<close> and the lead \<open>[C4, E4]\<close>; the line \<open>piano: C4 C4\<close> alone gives
  the empty pattern set.
\<close>

theorem parse_skips_and_compiles:
  "parse code = compile code
   \<and> (skipped l \<longrightarrow> parse_line P l = P)
   \<and> (\<not> skipped l \<longrightarrow> (\<exists>T. line_track l = Some T \<and> parse_line P l = store T (tokens (line_rest l)) P))
   \<and> parse song_text
       = \<lparr>drums = Some [''kick'', ''snare''], bass = None, synth = Some [''C4'', ''E4'']\<rparr>
   \<and> parse ''piano: C4 C4'' = no_patterns"
proof (intro conjI impI)
  show "parse code = compile code"
    by (rule parse_compile)
  show "parse_line P l = P" if "skipped l"
    using that by (rule parse_line_skipped)
  show "\<exists>T. line_track l = Some T \<and> parse_line P l = store T (tokens (line_rest l)) P"
    if "\<not> skipped l"
    using parse_line_compiled [OF that] by blast
  show "parse song_text
       = \<lparr>drums = Some [''kick'', ''snare''], bass = None, synth = Some [''C4'', ''E4'']\<rparr>"
    by (rule parse_song_text)
  show "parse ''piano: C4 C4'' = no_patterns"
    by (rule parse_piano)
qed

theorem parse_skips_and_compiles_witness:
  "compile song_text
     = \<lparr>drums = Some [''kick'', ''snare''], bass = None, synth = Some [''C4'', ''E4'']\<rparr>
   \<and> parse_line no_patterns ''piano: C4 C4'' = no_patterns
   \<and> parse_line no_patterns ''  // drums: kick'' = no_patterns
   \<and> parse_line no_patterns ''drums kick'' = no_patterns
   \<and> parse_line no_patterns (''drums: kick'' @ [CHR 0x0D]) = no_patterns
   \<and> parse_line no_patterns ''Bass : C2  -'' = store Bass [''C2'', ''-''] no_patterns"
proof -
  have s1: "skipped ''piano: C4 C4''" and s2: "skipped ''  // drums: kick''"
    and s3: "skipped ''drums kick''" and s4: "\<not> skipped ''Bass : C2  -''"
    and s5: "skipped (''drums: kick'' @ [CHR 0x0D])"
    by code_simp+
  have t: "line_track ''Bass : C2  -'' = Some Bass"
    and n: "tokens (line_rest ''Bass : C2  -'') = [''C2'', ''-'']"
    by code_simp+
  from parse_skips_and_compiles [of song_text "[]" no_patterns]
  have "compile song_text
     = \<lparr>drums = Some [''kick'', ''snare''], bass = None, synth = Some [''C4'', ''E4'']\<rparr>"
    by metis
  moreover from s1 parse_skips_and_compiles [of "[]" "''piano: C4 C4''" no_patterns]
  have "parse_line no_patterns ''piano: C4 C4'' = no_patterns" by blast
  moreover from s2 parse_skips_and_compiles [of "[]" "''  // drums: kick''" no_patterns]
  have "parse_line no_patterns ''  // drums: kick'' = no_patterns" by blast
  moreover from s3 parse_skips_and_compiles [of "[]" "''drums kick''" no_patterns]
  have "parse_line no_patterns ''drums kick'' = no_patterns" by blast
  moreover from s5 parse_skips_and_compiles [of "[]" "''drums: kick'' @ [CHR 0x0D]" no_patterns]
  have "parse_line no_patterns (''drums: kick'' @ [CHR 0x0D]) = no_patterns" by blast
  moreover from s4 parse_skips_and_compiles [of "[]" "''Bass : C2  -''" no_patterns]
  have "\<exists>T. line_track ''Bass : C2  -'' = Some T
          \<and> parse_line no_patterns ''Bass : C2  -''
              = store T (tokens (line_rest ''Bass : C2  -'')) no_patterns"
    by blast
  then have "parse_line no_patterns ''Bass : C2  -'' = store Bass [''C2'', ''-''] no_patterns"
    unfolding t n by simp
  ultimately show ?thesis by blast
qed

section \<open>The last line of a track wins\<close>

text \<open>
  C6.  When a line of the text is compiled for a track and no later line is, the compiled
  pattern set holds for that track exactly the tokens of that line, whatever earlier lines
  stored.  Compiling \<open>drums: kick\<close> followed by \<open>drums: snare\<close> gives the percussion the
  pattern \<open>[snare]\<close> and nothing else.
\<close>

theorem parse_last_line_wins:
  "(split_nl code = xs @ l # ys \<and> \<not> skipped l \<and> line_track l = Some T
      \<and> (\<forall>l'\<in>set ys. skipped l' \<or> line_track l' \<noteq> Some T)
     \<longrightarrow> pattern_of T (parse code) = Some (tokens (line_rest l)))
   \<and> parse (''drums: kick'' @ [CHR 0x0A] @ ''drums: snare'')
       = \<lparr>drums = Some [''snare''], bass = None, synth = None\<rparr>"
proof (intro conjI impI)
  assume a: "split_nl code = xs @ l # ys \<and> \<not> skipped l \<and> line_track l = Some T
      \<and> (\<forall>l'\<in>set ys. skipped l' \<or> line_track l' \<noteq> Some T)"
  then have sp: "split_nl code = xs @ l # ys" and ns: "\<not> skipped l"
    and tr: "line_track l = Some T"
    and later: "\<forall>l'\<in>set ys. skipped l' \<or> line_track l' \<noteq> Some T"
    by blast+
  define Q where "Q = foldl parse_line no_patterns (filter (\<lambda>l. \<not> skipped l) xs)"
  from parse_line_compiled [OF ns] tr
  have st: "parse_line Q l = store T (tokens (line_rest l)) Q"
    by auto
  have "parse code = foldl parse_line (parse_line Q l) (filter (\<lambda>l. \<not> skipped l) ys)"
    unfolding parse_unskipped sp Q_def using ns by simp
  then have "pattern_of T (parse code) = pattern_of T (parse_line Q l)"
    by (simp only: later_lines_keep [OF later])
  then show "pattern_of T (parse code) = Some (tokens (line_rest l))"
    by (simp add: st pattern_of_store)
next
  show "parse (''drums: kick'' @ [CHR 0x0A] @ ''drums: snare'')
       = \<lparr>drums = Some [''snare''], bass = None, synth = None\<rparr>"
    by (rule parse_kick_snare)
qed

theorem parse_last_line_wins_witness:
  "pattern_of Drums (parse (''drums: kick hihat'' @ [CHR 0x0A] @ ''DRUMS: snare'' @ [CHR 0x0A] @ ''bass: C2''))
     = Some [''snare'']"
proof -
  let ?code = "''drums: kick hihat'' @ [CHR 0x0A] @ ''DRUMS: snare'' @ [CHR 0x0A] @ ''bass: C2''"
  have sp: "split_nl ?code = [''drums: kick hihat''] @ ''DRUMS: snare'' # [''bass: C2'']"
    by code_simp
  have ns: "\<not> skipped ''DRUMS: snare''" and tr: "line_track ''DRUMS: snare'' = Some Drums"
    and n: "tokens (line_rest ''DRUMS: snare'') = [''snare'']"
    and tb: "line_track ''bass: C2'' = Some Bass"
    by code_simp+
  have later: "\<forall>l'\<in>set [''bass: C2'']. skipped l' \<or> line_track l' \<noteq> Some Drums"
    using tb by simp
  from sp ns tr later
    parse_last_line_wins [of ?code "[''drums: kick hihat'']" "''DRUMS: snare''" "[''bass: C2'']" Drums]
  have "pattern_of Drums (parse ?code) = Some (tokens (line_rest ''DRUMS: snare''))"
    by blast
  then show ?thesis unfolding n .
qed

section \<open>The advisory validator\<close>

lemma notePattern_test_iff:
  "notePattern_test tok \<longleftrightarrow>
     (\<exists>l m d. tok = l # m @ [d] \<and> (l \<in> set ''ABCDEFG'' \<or> l \<in> set ''abcdefg'')
        \<and> (m = [] \<or> m = ''#'' \<or> m = ''b'') \<and> d \<in> set ''012345678'')"
proof
  assume "notePattern_test tok"
  then show "\<exists>l m d. tok = l # m @ [d] \<and> (l \<in> set ''ABCDEFG'' \<or> l \<in> set ''abcdefg'')
        \<and> (m = [] \<or> m = ''#'' \<or> m = ''b'') \<and> d \<in> set ''012345678''"
    unfolding notePattern_test_def letter_A_to_G_def digit_0_to_8_def
    by (auto split: list.splits)
next
  assume "\<exists>l m d. tok = l # m @ [d] \<and> (l \<in> set ''ABCDEFG'' \<or> l \<in> set ''abcdefg'')
        \<and> (m = [] \<or> m = ''#'' \<or> m = ''b'') \<and> d \<in> set ''012345678''"
  then obtain l m d where "tok = l # m @ [d]" "l \<in> set ''ABCDEFG'' \<or> l \<in> set ''abcdefg''"
     "m = [] \<or> m = ''#'' \<or> m = ''b''" "d \<in> set ''012345678''" by blast
  then show "notePattern_test tok"
    unfolding notePattern_test_def letter_A_to_G_def digit_0_to_8_def
    by auto
qed

text \<open>
  C9 as the specification states it fails: the validator accepts the rest \<open>-\<close> on every
  track, drum names in any case, and the letters \<open>a\<close> to \<open>g\<close>, none of which the grammar
  as worded admits.
\<close>

theorem isValidNote_counterexample:
  "isValidNote ''KICK'' ''drums'' \<and> \<not> claimed_valid_token Drums ''KICK''
   \<and> isValidNote ''c4'' ''bass'' \<and> \<not> claimed_valid_token Bass ''c4''
   \<and> isValidNote ''-'' ''synth'' \<and> \<not> claimed_valid_token Synth ''-''"
  by (simp add: isValidNote_def validDrums_def claimed_valid_token_def notePattern_test_def
      letter_A_to_G_def digit_0_to_8_def toLowerCase_def toLowerCase_char_def char_of_eq_iff)

text \<open>
  C9, amended.  On each of the three tracks the validator accepts a token exactly when it is
  the rest \<open>-\<close>, or the track is the percussion and the lower-case form of the token is one
  of \<open>kick\<close>, \<open>snare\<close>, \<open>hihat\<close>, \<open>clap\<close>, or the track is melodic and the token is a letter
  \<open>A\<close> to \<open>G\<close> or \<open>a\<close> to \<open>g\<close>, then at most one of \<open>#\<close> and \<open>b\<close>, then a digit \<open>0\<close> to \<open>8\<close>.
\<close>

theorem isValidNote_iff:
  "(isValidNote tok (track_name T) \<longleftrightarrow>
     tok = ''-''
     \<or> (T = Drums \<and> toLowerCase tok \<in> {''kick'', ''snare'', ''hihat'', ''clap''})
     \<or> (T \<noteq> Drums \<and> (\<exists>l m d. tok = l # m @ [d] \<and> (l \<in> set ''ABCDEFG'' \<or> l \<in> set ''abcdefg'')
        \<and> (m = [] \<or> m = ''#'' \<or> m = ''b'') \<and> d \<in> set ''012345678'')))"
  by (cases T) (simp_all add: isValidNote_def validDrums_def notePattern_test_iff)

theorem isValidNote_iff_witness:
  "isValidNote ''Snare'' (track_name Drums) \<and> isValidNote ''g#8'' (track_name Synth)
   \<and> \<not> isValidNote ''H2'' (track_name Bass)"
  using isValidNote_iff [of "''Snare''" Drums] isValidNote_iff [of "''g#8''" Synth]
    isValidNote_iff [of "''H2''" Bass]
  by (simp add: toLowerCase_def toLowerCase_char_def char_of_eq_iff)

section \<open>Replacing the patterns\<close>

lemma running_sequencer_eq:
  "running_sequencer = \<lparr>patterns = \<lparr>drums = Some [''kick'', ''snare''], bass = None, synth = None\<rparr>,
    currentStep = 0, maxSteps = 2, sequence = Some [0, 1],
    onStepCallback = False, transport_state = started,
    calls = [ToneStart, SequenceNew [0, 1] ''8n'', SequenceStart, TransportStart],
    pending_starts = 0\<rparr>"
  unfolding running_sequencer_def by code_simp

lemma parse_empty: "parse [] = no_patterns"
  by code_simp

lemma parse_bass_C2: "parse ''bass: C2'' = \<lparr>drums = None, bass = Some [''C2''], synth = None\<rparr>"
  by code_simp

text \<open>
  After a pause the sequencer is not playing, so new text is only stored; the sequence that
  is resumed then reads the stored patterns at its next tick.
\<close>

lemma callback_after_resume_reads_stored_patterns:
  "fst (sequence_callback accepts t step (resume (updatePatterns code (pause s))))
     = playStep accepts (parse code) step t"
  by (simp add: sequence_callback_def resume_def call_def updatePatterns_def isPlaying_def
      pause_def transport_pause_def Let_def split: option.splits)

text \<open>
  A \<open>stop\<close> that comes while the \<open>start\<close> of \<open>updatePatterns\<close> waits does not cancel it: when
  the rest of that \<open>start\<close> runs, the sequencer plays again.
\<close>

lemma pending_start_outlives_stop:
  assumes "isPlaying s" and "0 < getMaxPatternLength (parse code)"
  shows "isPlaying (start_resumed (stop (updatePatterns code s)))"
  using assms
  by (simp add: updatePatterns_def isPlaying_def Let_def start_called_def start_resumed_def
      start_body_def stop_def call_def transport_start_def transport_stop_def
      split: option.splits)

text \<open>
  C4 as the specification states it fails for a text that compiles to cycle length 0: the
  playing sequencer is stopped, and the \<open>start\<close> it has called declines when its rest runs, so
  no new loop exists, neither when \<open>updatePatterns\<close> returns nor afterwards.
\<close>

theorem updatePatterns_counterexample:
  "isPlaying running_sequencer
   \<and> sequence (updatePatterns [] running_sequencer) = None
   \<and> sequence (start_resumed (updatePatterns [] running_sequencer)) = None
   \<and> transport_state (start_resumed (updatePatterns [] running_sequencer)) = stopped"
  unfolding running_sequencer_eq
  by (simp add: isPlaying_def updatePatterns_def parse_empty no_patterns_def getMaxPatternLength_def
    start_called_def start_resumed_def start_body_def stop_def call_def Let_def transport_stop_def)

text \<open>
  C4, amended.  While the transport is running, \<open>updatePatterns\<close> stores the compiled pattern
  set, stops and disposes the old loop, sets the step index to 0 and calls \<open>start\<close> without
  awaiting it: when it returns, no loop exists, the transport is stopped and the rest of
  \<open>start\<close> waits.  When that rest runs next, it starts a new loop over the steps of the new
  cycle length if this is positive, and if it is 0 no loop is started and the transport
  stays stopped.  While the transport is paused or stopped, \<open>updatePatterns\<close> only stores the
  compiled pattern set and its cycle length, and the next \<open>start\<close> builds its loop from them.
\<close>

theorem updatePatterns_restart_or_stage:
  "(isPlaying s \<longrightarrow>
      updatePatterns code s
        = start_called (stop (s\<lparr>patterns := parse code, maxSteps := getMaxPatternLength (parse code)\<rparr>))
      \<and> patterns (updatePatterns code s) = parse code
      \<and> currentStep (updatePatterns code s) = 0
      \<and> sequence (updatePatterns code s) = None
      \<and> transport_state (updatePatterns code s) = stopped
      \<and> pending_starts (updatePatterns code s) = Suc (pending_starts s)
      \<and> calls (updatePatterns code s)
          = calls s @ TransportStop #
            (case sequence s of Some ev \<Rightarrow> [SequenceStop, SequenceDispose ev] | None \<Rightarrow> [])
            @ [ToneStart])
   \<and> (isPlaying s \<and> 0 < getMaxPatternLength (parse code) \<longrightarrow>
      patterns (start_resumed (updatePatterns code s)) = parse code
      \<and> currentStep (start_resumed (updatePatterns code s)) = 0
      \<and> sequence (start_resumed (updatePatterns code s))
          = Some [0..<getMaxPatternLength (parse code)]
      \<and> isPlaying (start_resumed (updatePatterns code s))
      \<and> pending_starts (start_resumed (updatePatterns code s)) = pending_starts s
      \<and> calls (start_resumed (updatePatterns code s))
          = calls (updatePatterns code s)
            @ [SequenceNew [0..<getMaxPatternLength (parse code)] ''8n'',
               SequenceStart, TransportStart])
   \<and> (isPlaying s \<and> getMaxPatternLength (parse code) = 0 \<longrightarrow>
      sequence (start_resumed (updatePatterns code s)) = None
      \<and> transport_state (start_resumed (updatePatterns code s)) = stopped
      \<and> calls (start_resumed (updatePatterns code s))
          = calls (updatePatterns code s) @ [ConsoleWarn ''No patterns to play''])
   \<and> (\<not> isPlaying s \<longrightarrow>
      updatePatterns code s
        = s\<lparr>patterns := parse code, maxSteps := getMaxPatternLength (parse code)\<rparr>
      \<and> patterns (start (updatePatterns code s)) = parse code
      \<and> (0 < getMaxPatternLength (parse code) \<longrightarrow>
           sequence (start (updatePatterns code s)) = Some [0..<getMaxPatternLength (parse code)]
           \<and> currentStep (start (updatePatterns code s)) = 0
           \<and> isPlaying (start (updatePatterns code s))))"
proof (intro conjI impI)
  assume "isPlaying s"
  then show "updatePatterns code s
        = start_called (stop (s\<lparr>patterns := parse code, maxSteps := getMaxPatternLength (parse code)\<rparr>))"
    by (simp add: updatePatterns_def isPlaying_def Let_def)
next
  assume "isPlaying s"
  then show "patterns (updatePatterns code s) = parse code"
    and "currentStep (updatePatterns code s) = 0"
    and "sequence (updatePatterns code s) = None"
    and "transport_state (updatePatterns code s) = stopped"
    and "pending_starts (updatePatterns code s) = Suc (pending_starts s)"
    and "calls (updatePatterns code s)
          = calls s @ TransportStop #
            (case sequence s of Some ev \<Rightarrow> [SequenceStop, SequenceDispose ev] | None \<Rightarrow> [])
            @ [ToneStart]"
    by (simp_all add: updatePatterns_def isPlaying_def Let_def start_called_def stop_def call_def
        transport_stop_def split: option.splits)
next
  assume "isPlaying s \<and> 0 < getMaxPatternLength (parse code)"
  then show "patterns (start_resumed (updatePatterns code s)) = parse code"
    and "currentStep (start_resumed (updatePatterns code s)) = 0"
    and "sequence (start_resumed (updatePatterns code s))
          = Some [0..<getMaxPatternLength (parse code)]"
    and "isPlaying (start_resumed (updatePatterns code s))"
    and "pending_starts (start_resumed (updatePatterns code s)) = pending_starts s"
    and "calls (start_resumed (updatePatterns code s))
          = calls (updatePatterns code s)
            @ [SequenceNew [0..<getMaxPatternLength (parse code)] ''8n'',
               SequenceStart, TransportStart]"
    by (simp_all add: updatePatterns_def isPlaying_def Let_def start_called_def start_resumed_def
        start_body_def stop_def call_def transport_start_def transport_stop_def
        split: option.splits)
next
  assume "isPlaying s \<and> getMaxPatternLength (parse code) = 0"
  then show "sequence (start_resumed (updatePatterns code s)) = None"
    and "transport_state (start_resumed (updatePatterns code s)) = stopped"
    and "calls (start_resumed (updatePatterns code s))
          = calls (updatePatterns code s) @ [ConsoleWarn ''No patterns to play'']"
    by (simp_all add: updatePatterns_def isPlaying_def Let_def start_called_def start_resumed_def
        start_body_def stop_def call_def transport_stop_def split: option.splits)
next
  assume "\<not> isPlaying s"
  then show "updatePatterns code s
        = s\<lparr>patterns := parse code, maxSteps := getMaxPatternLength (parse code)\<rparr>"
    and "patterns (start (updatePatterns code s)) = parse code"
    by (simp_all add: updatePatterns_def isPlaying_def Let_def)
next
  assume "\<not> isPlaying s" and "0 < getMaxPatternLength (parse code)"
  then show "sequence (start (updatePatterns code s)) = Some [0..<getMaxPatternLength (parse code)]"
    and "currentStep (start (updatePatterns code s)) = 0"
    and "isPlaying (start (updatePatterns code s))"
    by (simp_all add: updatePatterns_def isPlaying_def Let_def start_def start_body_def call_def
        transport_start_def split: option.splits)
qed

theorem updatePatterns_restart_or_stage_witness:
  "sequence (updatePatterns ''bass: C2'' running_sequencer) = None
   \<and> transport_state (updatePatterns ''bass: C2'' running_sequencer) = stopped
   \<and> pending_starts (updatePatterns ''bass: C2'' running_sequencer) = Suc 0
   \<and> sequence (start_resumed (updatePatterns ''bass: C2'' running_sequencer)) = Some [0]
   \<and> currentStep (start_resumed (updatePatterns ''bass: C2'' running_sequencer)) = 0
   \<and> isPlaying (start_resumed (updatePatterns ''bass: C2'' running_sequencer))
   \<and> sequence (start_resumed (updatePatterns [] running_sequencer)) = None
   \<and> updatePatterns ''bass: C2'' new_Sequencer
       = new_Sequencer\<lparr>patterns := parse ''bass: C2'', maxSteps := 1\<rparr>
   \<and> sequence (start (updatePatterns ''bass: C2'' new_Sequencer)) = Some [0]"
proof -
  have r: "isPlaying running_sequencer" and p0: "pending_starts running_sequencer = 0"
    unfolding running_sequencer_eq by (simp_all add: isPlaying_def)
  have n: "\<not> isPlaying new_Sequencer"
    by (simp add: isPlaying_def new_Sequencer_def)
  have m: "getMaxPatternLength (parse ''bass: C2'') = 1"
    unfolding parse_bass_C2 by (simp add: getMaxPatternLength_def)
  have e: "getMaxPatternLength (parse []) = 0"
    unfolding parse_empty by (simp add: no_patterns_def getMaxPatternLength_def)
  have p: "0 < getMaxPatternLength (parse ''bass: C2'')"
    and u: "[0..<getMaxPatternLength (parse ''bass: C2'')] = [0]"
    unfolding m by simp_all
  from r p updatePatterns_restart_or_stage [of running_sequencer "''bass: C2''"]
  have "sequence (updatePatterns ''bass: C2'' running_sequencer) = None
        \<and> transport_state (updatePatterns ''bass: C2'' running_sequencer) = stopped
        \<and> pending_starts (updatePatterns ''bass: C2'' running_sequencer)
            = Suc (pending_starts running_sequencer)
        \<and> sequence (start_resumed (updatePatterns ''bass: C2'' running_sequencer))
            = Some [0..<getMaxPatternLength (parse ''bass: C2'')]
        \<and> currentStep (start_resumed (updatePatterns ''bass: C2'' running_sequencer)) = 0
        \<and> isPlaying (start_resumed (updatePatterns ''bass: C2'' running_sequencer))"
    by blast
  moreover from r e updatePatterns_restart_or_stage [of running_sequencer "[]"]
  have "sequence (start_resumed (updatePatterns [] running_sequencer)) = None"
    by blast
  moreover from n p updatePatterns_restart_or_stage [of new_Sequencer "''bass: C2''"]
  have "updatePatterns ''bass: C2'' new_Sequencer
          = new_Sequencer\<lparr>patterns := parse ''bass: C2'',
              maxSteps := getMaxPatternLength (parse ''bass: C2'')\<rparr>
        \<and> sequence (start (updatePatterns ''bass: C2'' new_Sequencer))
          = Some [0..<getMaxPatternLength (parse ''bass: C2'')]"
    by blast
  ultimately show ?thesis
    unfolding u p0 unfolding m by blast
qed

end
